theory Spec2Isabelle
  imports Main "HOL-Library.Word" "HOL-Library.List_Lexorder"
begin

unbundle bit_operations_syntax

section \<open>Data model of the registry server\<close>

text \<open>
  The registry engine keeps a tree of keys. A \<open>WCHAR\<close> is a 16-bit code unit, a payload
  is a string of bytes. The lengths that the C structures store next to a pointer
  (\<open>namelen\<close>, \<open>len\<close>, \<open>classlen\<close>, \<open>last_value\<close>, \<open>last_subkey\<close>) are lengths of the
  lists below and are given as functions; all of them count bytes, as in the source, so a
  name of \<open>n\<close> characters has length \<open>2 * n\<close>.
\<close>

type_synonym WCHAR = "16 word"
type_synonym byte = "8 word"

text \<open>The error slot of the current thread (\<open>set_error\<close>, \<open>get_error\<close>, \<open>clear_error\<close>).\<close>

datatype status =
    STATUS_SUCCESS
  | STATUS_PENDING
  | STATUS_OBJECT_NAME_EXISTS
  | STATUS_OBJECT_NAME_NOT_FOUND
  | STATUS_OBJECT_NAME_INVALID
  | STATUS_OBJECT_NAME_COLLISION
  | STATUS_OBJECT_PATH_INVALID
  | STATUS_OBJECT_PATH_SYNTAX_BAD
  | STATUS_OBJECT_TYPE_MISMATCH
  | STATUS_INVALID_PARAMETER
  | STATUS_INVALID_HANDLE
  | STATUS_NAME_TOO_LONG
  | STATUS_CHILD_MUST_BE_VOLATILE
  | STATUS_ACCESS_DENIED
  | STATUS_KEY_DELETED
  | STATUS_NO_MORE_ENTRIES
  | STATUS_NO_MEMORY
  | STATUS_NOT_REGISTRY_FILE
  | STATUS_PRIVILEGE_NOT_HELD

text \<open>\<open>struct key_value\<close>: \<open>vdata = None\<close> is the null data pointer.\<close>

record key_value =
  vname :: "WCHAR list"
  vtype :: "32 word"
  vdata :: "byte list option"

definition namelen :: "key_value \<Rightarrow> nat" where
  "namelen v = 2 * length (vname v)"

definition vlen :: "key_value \<Rightarrow> nat" where
  "vlen v = (case vdata v of None \<Rightarrow> 0 | Some d \<Rightarrow> length d)"

text \<open>\<open>struct notify\<close>: \<open>event = None\<close> is the null event pointer of a subscription that
  has fired; events, handles and processes are identified by numbers.\<close>

record notify =
  event :: "nat option"
  subtree :: bool
  filter :: "32 word"
  hkey :: nat
  process :: nat

text \<open>
  \<open>struct key\<close>. The fields that do not point to other keys form the record \<open>key_node\<close>;
  a key is a node with the array of its subkeys. The \<open>parent\<close> pointer is not stored:
  a pointer to a key is the list of subkey indices that leads to it from the root of the
  tree (\<open>key_ref\<close>), and the parent of the key at \<open>p @ [i]\<close> is the key at \<open>p\<close>; the root
  has no parent.
\<close>

record key_node =
  obj_name :: "WCHAR list"
  key_class :: "WCHAR list option"
  key_values :: "key_value list"
  nb_values :: nat
  flags :: "32 word"
  modif :: int
  notify_list :: "notify list"

datatype key = Key (node: key_node) (subkeys: "key list")

type_synonym key_ref = "nat list"

definition KEY_VOLATILE :: "32 word" where "KEY_VOLATILE = 0x0001"
definition KEY_DELETED :: "32 word" where "KEY_DELETED = 0x0002"
definition KEY_DIRTY :: "32 word" where "KEY_DIRTY = 0x0004"
definition KEY_SYMLINK :: "32 word" where "KEY_SYMLINK = 0x0008"
definition KEY_WOW64 :: "32 word" where "KEY_WOW64 = 0x0010"
definition KEY_WOWSHARE :: "32 word" where "KEY_WOWSHARE = 0x0020"

definition MIN_SUBKEYS :: nat where "MIN_SUBKEYS = 8"
definition MIN_VALUES :: nat where "MIN_VALUES = 8"
definition MAX_NAME_LEN :: nat where "MAX_NAME_LEN = 256"
definition MAX_VALUE_LEN :: nat where "MAX_VALUE_LEN = 16383"

definition WINE_OBJ_WOW64 :: "32 word" where "WINE_OBJ_WOW64 = 0x80000000"

text \<open>
  Modelled from the spec: the constants below are declared in the Windows headers
  (\<open>winnt.h\<close>, \<open>winternl.h\<close>), which are not among the sources; they carry the names
  the source uses and the values of the Windows SDK.
\<close>

definition REG_LINK :: "32 word" where "REG_LINK = 6"
definition REG_NOTIFY_CHANGE_NAME :: "32 word" where "REG_NOTIFY_CHANGE_NAME = 0x1"
definition REG_NOTIFY_CHANGE_LAST_SET :: "32 word" where "REG_NOTIFY_CHANGE_LAST_SET = 0x4"
definition REG_OPTION_VOLATILE :: "32 word" where "REG_OPTION_VOLATILE = 0x1"
definition REG_OPTION_CREATE_LINK :: "32 word" where "REG_OPTION_CREATE_LINK = 0x2"
definition OBJ_OPENIF :: "32 word" where "OBJ_OPENIF = 0x80"
definition OBJ_OPENLINK :: "32 word" where "OBJ_OPENLINK = 0x100"
definition KEY_SET_VALUE :: "32 word" where "KEY_SET_VALUE = 0x0002"
definition KEY_WOW64_64KEY :: "32 word" where "KEY_WOW64_64KEY = 0x0100"
definition KEY_WOW64_32KEY :: "32 word" where "KEY_WOW64_32KEY = 0x0200"

text \<open>The names \<open>\REGISTRY\<close>, \<open>Wow6432Node\<close> and \<open>SymbolicLinkValue\<close>, and the backslash.\<close>

definition backslash :: WCHAR where
  "backslash = 0x5C"


definition wow6432node :: "WCHAR list" where
  "wow6432node = [0x57, 0x6F, 0x77, 0x36, 0x34, 0x33, 0x32, 0x4E, 0x6F, 0x64, 0x65]"

definition symlink_value :: "WCHAR list" where
  "symlink_value = [0x53, 0x79, 0x6D, 0x62, 0x6F, 0x6C, 0x69, 0x63, 0x4C, 0x69, 0x6E, 0x6B,
                    0x56, 0x61, 0x6C, 0x75, 0x65]"

text \<open>
  The globals of the engine that the operations below read and write: the root of the
  tree, the architecture of the prefix (\<open>prefix_type\<close>), the server's clock, the error slot of the current thread, and the events that
  \<open>set_event\<close> has signalled so far, most recent last.
\<close>

datatype prefix_type = PREFIX_UNKNOWN | PREFIX_32BIT | PREFIX_64BIT

record registry =
  root_key :: key
  prefix :: prefix_type
  current_time :: int
  error :: status
  signalled :: "nat list"

section \<open>Keys in the tree\<close>

fun key_at :: "key \<Rightarrow> key_ref \<Rightarrow> key option" where
  "key_at k [] = Some k"
| "key_at k (i # p) = (if i < length (subkeys k) then key_at (subkeys k ! i) p else None)"

text \<open>\<open>update_key f p k\<close> stores through the pointer \<open>p\<close>: the key at \<open>p\<close> becomes \<open>f\<close> of it.\<close>

fun update_key :: "(key \<Rightarrow> key) \<Rightarrow> key_ref \<Rightarrow> key \<Rightarrow> key" where
  "update_key f [] k = f k"
| "update_key f (i # p) k =
     (if i < length (subkeys k)
      then Key (node k) ((subkeys k)[i := update_key f p (subkeys k ! i)])
      else k)"

definition update_node :: "(key_node \<Rightarrow> key_node) \<Rightarrow> key \<Rightarrow> key" where
  "update_node f k = Key (f (node k)) (subkeys k)"

definition key_flags :: "key \<Rightarrow> 32 word" where
  "key_flags k = flags (node k)"

section \<open>Names and values\<close>

text \<open>
  \<open>memicmpW\<close> of \<open>wine/unicode.h\<close> compares the first \<open>n\<close> characters of two strings after
  lower-casing them. The case table behind \<open>tolowerW\<close> is not among the sources, so the
  lower-casing function is the parameter \<open>tolowerW\<close> of every operation that compares names.
  The callers pass an \<open>n\<close> no longer than either string.
\<close>

fun memicmpW :: "(WCHAR \<Rightarrow> WCHAR) \<Rightarrow> WCHAR list \<Rightarrow> WCHAR list \<Rightarrow> nat \<Rightarrow> int" where
  "memicmpW tolowerW (a # str1) (b # str2) (Suc n) =
     (let ret = int (unat (tolowerW a)) - int (unat (tolowerW b))
      in if ret \<noteq> 0 then ret else memicmpW tolowerW str1 str2 n)"
| "memicmpW tolowerW str1 str2 n = 0"

text \<open>
  \<open>find_value\<close>: binary search in the sorted array of values. The result is the value
  found (or \<open>None\<close> for the null pointer) and \<open>*index\<close>, which on a miss is the place
  where the name should be inserted.
\<close>

definition value_name_cmp :: "(WCHAR \<Rightarrow> WCHAR) \<Rightarrow> key_value \<Rightarrow> WCHAR list \<Rightarrow> int" where
  "value_name_cmp tolowerW v name =
     (let len = min (namelen v) (2 * length name);
          res = memicmpW tolowerW (vname v) name (len div 2)
      in if res = 0 then int (namelen v) - int (2 * length name) else res)"

function find_value_loop ::
  "(WCHAR \<Rightarrow> WCHAR) \<Rightarrow> key_value list \<Rightarrow> WCHAR list \<Rightarrow> int \<Rightarrow> int \<Rightarrow> key_value option \<times> nat"
where
  "find_value_loop tolowerW vals name mn mx =
     (if mn \<le> mx then
        (if value_name_cmp tolowerW (vals ! nat ((mn + mx) div 2)) name = 0
           then (Some (vals ! nat ((mn + mx) div 2)), nat ((mn + mx) div 2))
         else if value_name_cmp tolowerW (vals ! nat ((mn + mx) div 2)) name > 0
           then find_value_loop tolowerW vals name mn ((mn + mx) div 2 - 1)
         else find_value_loop tolowerW vals name ((mn + mx) div 2 + 1) mx)
      else (None, nat mn))"
  by pat_completeness auto
termination
proof (relation "measure (\<lambda>(tolowerW, vals, name, mn, mx). nat (mx - mn + 1))")
  show "wf (measure (\<lambda>(tolowerW, vals, name, mn, mx). nat (mx - mn + 1)))"
    by simp
next
  fix tolowerW :: "WCHAR \<Rightarrow> WCHAR" and vals :: "key_value list" and name :: "WCHAR list"
    and mn mx :: int
  assume "mn \<le> mx"
  then have "nat ((mn + mx) div 2 - 1 - mn + 1) < nat (mx - mn + 1)"
    by linarith
  then show "((tolowerW, vals, name, mn, (mn + mx) div 2 - 1), (tolowerW, vals, name, mn, mx))
      \<in> measure (\<lambda>(tolowerW, vals, name, mn, mx). nat (mx - mn + 1))"
    by simp
next
  fix tolowerW :: "WCHAR \<Rightarrow> WCHAR" and vals :: "key_value list" and name :: "WCHAR list"
    and mn mx :: int
  assume "mn \<le> mx"
  then have "nat (mx - ((mn + mx) div 2 + 1) + 1) < nat (mx - mn + 1)"
    by linarith
  then show "((tolowerW, vals, name, (mn + mx) div 2 + 1, mx), (tolowerW, vals, name, mn, mx))
      \<in> measure (\<lambda>(tolowerW, vals, name, mn, mx). nat (mx - mn + 1))"
    by simp
qed

definition find_value ::
  "(WCHAR \<Rightarrow> WCHAR) \<Rightarrow> key \<Rightarrow> WCHAR list \<Rightarrow> key_value option \<times> nat" where
  "find_value tolowerW k name =
     find_value_loop tolowerW (key_values (node k)) name 0
       (int (length (key_values (node k))) - 1)"

text \<open>
  The allocator. Every allocation site of \<open>set_value\<close> and \<open>insert_value\<close> has its own
  answer: \<open>data_alloc\<close> for the \<open>memdup\<close> of the payload, \<open>values_alloc\<close> for the
  \<open>mem_alloc\<close> or \<open>realloc\<close> of the value array in \<open>grow_values\<close>, \<open>name_alloc\<close> for the
  \<open>memdup\<close> of the name. \<open>slot_type\<close> is what the memory of the first unused slot of the
  array holds in its \<open>type\<close> field.
\<close>

record allocator =
  data_alloc :: bool
  values_alloc :: bool
  name_alloc :: bool
  slot_type :: "32 word"

text \<open>
  \<open>grow_values\<close> returns the key with its new capacity, or the error. \<open>insert_value\<close>
  returns the error, if any, and the key as it leaves it: when the array has been grown and
  the \<open>memdup\<close> of the name then fails, the key keeps the grown capacity. The new slot has
  no data and length 0. Its \<open>type\<close> is not written: the slot at \<open>index\<close> keeps the type it
  had before the values were shifted up, which is the type of the value that was at \<open>index\<close>,
  or the content of the unused slot when \<open>index\<close> is past the last value.
\<close>

definition grow_values :: "allocator \<Rightarrow> key_node \<Rightarrow> status + key_node" where
  "grow_values al n =
     (if \<not> values_alloc al then Inl STATUS_NO_MEMORY
      else if nb_values n \<noteq> 0
        then Inr (n\<lparr>nb_values := nb_values n + nb_values n div 2\<rparr>)
        else Inr (n\<lparr>nb_values := MIN_VALUES\<rparr>))"

definition insert_value ::
  "allocator \<Rightarrow> key_node \<Rightarrow> WCHAR list \<Rightarrow> nat \<Rightarrow> status option \<times> key_node"
where
  "insert_value al n name index =
     (if 2 * length name > MAX_VALUE_LEN * 2 then (Some STATUS_NAME_TOO_LONG, n)
      else case (if length (key_values n) = nb_values n then grow_values al n else Inr n) of
        Inl e \<Rightarrow> (Some e, n)
      | Inr n' \<Rightarrow>
          if name \<noteq> [] \<and> \<not> name_alloc al then (Some STATUS_NO_MEMORY, n')
          else (None, n'\<lparr>key_values :=
                 take index (key_values n') @
                 \<lparr>vname = name,
                  vtype = (if index < length (key_values n')
                           then vtype (key_values n' ! index) else slot_type al),
                  vdata = None\<rparr> #
                 drop index (key_values n')\<rparr>))"

section \<open>Dirty marking and notifications\<close>

text \<open>\<open>make_dirty\<close>: mark a key and all its parents as dirty, stopping at the first key
  that is dirty or volatile already.\<close>

function make_dirty :: "key_ref \<Rightarrow> key \<Rightarrow> key" where
  "make_dirty p root =
     (case key_at root p of
        None \<Rightarrow> root
      | Some k \<Rightarrow>
          if key_flags k AND (KEY_DIRTY OR KEY_VOLATILE) \<noteq> 0 then root
          else (let root' = update_key (update_node (\<lambda>n. n\<lparr>flags := flags n OR KEY_DIRTY\<rparr>)) p root
                in if p = [] then root' else make_dirty (butlast p) root'))"
  by pat_completeness auto
termination
  by (relation "measure (\<lambda>(p, root). length p)") auto

text \<open>\<open>make_clean\<close>: mark a key and all its subkeys as clean.\<close>

fun make_clean :: "key \<Rightarrow> key" where
  "make_clean (Key n ks) =
     (if flags n AND KEY_VOLATILE \<noteq> 0 then Key n ks
      else if flags n AND KEY_DIRTY = 0 then Key n ks
      else Key (n\<lparr>flags := flags n AND NOT KEY_DIRTY\<rparr>) (map make_clean ks))"

text \<open>
  \<open>do_notification\<close> with \<open>del = 0\<close>, as \<open>check_notify\<close> calls it: an armed subscription
  has its event set and forgets it; the record stays in the list. The result is the
  record and the events set.
\<close>

definition do_notification :: "notify \<Rightarrow> notify \<times> nat list" where
  "do_notification n =
     (case event n of None \<Rightarrow> (n, []) | Some e \<Rightarrow> (n\<lparr>event := None\<rparr>, [e]))"

fun check_notify_list :: "notify list \<Rightarrow> 32 word \<Rightarrow> bool \<Rightarrow> notify list \<times> nat list" where
  "check_notify_list [] change not_subtree = ([], [])"
| "check_notify_list (n # ns) change not_subtree =
     (let (n', es) = (if (not_subtree \<or> subtree n) \<and> change AND filter n \<noteq> 0
                      then do_notification n else (n, []));
          (ns', es') = check_notify_list ns change not_subtree
      in (n' # ns', es @ es'))"

text \<open>\<open>check_notify\<close> on the key at \<open>p\<close>; the events it sets are appended to \<open>signalled\<close>.\<close>

definition check_notify :: "key_ref \<Rightarrow> 32 word \<Rightarrow> bool \<Rightarrow> registry \<Rightarrow> registry" where
  "check_notify p change not_subtree s =
     (case key_at (root_key s) p of
        None \<Rightarrow> s
      | Some k \<Rightarrow>
          (let (ns, es) = check_notify_list (notify_list (node k)) change not_subtree
           in s\<lparr>root_key := update_key (update_node (\<lambda>n. n\<lparr>notify_list := ns\<rparr>)) p (root_key s),
                signalled := signalled s @ es\<rparr>))"

text \<open>The loop of \<open>touch_key\<close> over the parents: \<open>p\<close> is \<open>k\<close>, the key to check next, or
  \<open>None\<close> once the root has been passed.\<close>

function notify_parents :: "key_ref option \<Rightarrow> 32 word \<Rightarrow> registry \<Rightarrow> registry" where
  "notify_parents None change s = s"
| "notify_parents (Some p) change s =
     notify_parents (if p = [] then None else Some (butlast p)) change
       (check_notify p (change AND NOT REG_NOTIFY_CHANGE_LAST_SET) False s)"
  by pat_completeness auto
termination
  by (relation "measure (\<lambda>(p, change, s). case p of None \<Rightarrow> 0 | Some q \<Rightarrow> Suc (length q))") auto

definition parent :: "key_ref \<Rightarrow> key_ref option" where
  "parent p = (if p = [] then None else Some (butlast p))"

text \<open>\<open>touch_key\<close>: update the modification time, mark dirty, notify.\<close>

definition touch_key :: "key_ref \<Rightarrow> 32 word \<Rightarrow> registry \<Rightarrow> registry" where
  "touch_key p change s =
     (let s1 = s\<lparr>root_key := update_key (update_node (\<lambda>n. n\<lparr>modif := current_time s\<rparr>)) p (root_key s)\<rparr>;
          s2 = s1\<lparr>root_key := make_dirty p (root_key s1)\<rparr>;
          s3 = check_notify p change True s2
      in notify_parents (parent p) change s3)"

section \<open>Setting a value\<close>

text \<open>
  \<open>set_value\<close> on the key at \<open>p\<close>. \<open>data\<close> is the payload and its length is \<open>len\<close> of the
  source. The test \<open>value->data && !memcmp(...)\<close> needs a stored data pointer; a stored
  value of length 0 has none.
\<close>

definition set_value ::
  "(WCHAR \<Rightarrow> WCHAR) \<Rightarrow> allocator \<Rightarrow> key_ref \<Rightarrow> WCHAR list \<Rightarrow> 32 word \<Rightarrow> byte list \<Rightarrow>
   registry \<Rightarrow> registry"
where
  "set_value tolowerW al p name type data s =
     (case key_at (root_key s) p of
        None \<Rightarrow> s
      | Some k \<Rightarrow>
          (let (value, index) = find_value tolowerW k name
           in if (case value of
                    None \<Rightarrow> False
                  | Some v \<Rightarrow> vtype v = type \<and> vlen v = length data \<and>
                      (case vdata v of None \<Rightarrow> False | Some d \<Rightarrow> d = data))
              then s
              else if key_flags k AND KEY_SYMLINK \<noteq> 0 \<and>
                      (type \<noteq> REG_LINK \<or> 2 * length name \<noteq> 2 * length symlink_value \<or>
                       memicmpW tolowerW name symlink_value (2 * length name div 2) \<noteq> 0)
              then s\<lparr>error := STATUS_ACCESS_DENIED\<rparr>
              else if data \<noteq> [] \<and> \<not> data_alloc al then s\<lparr>error := STATUS_NO_MEMORY\<rparr>
              else
                (case (if value = None then insert_value al (node k) name index
                       else (None, node k)) of
                   (Some e, n) \<Rightarrow>
                     s\<lparr>root_key := update_key (update_node (\<lambda>_. n)) p (root_key s),
                       error := e\<rparr>
                 | (None, n) \<Rightarrow>
                     (let ptr = (if data = [] then None else Some data);
                          n' = n\<lparr>key_values := (key_values n)
                                 [index := (key_values n ! index)\<lparr>vtype := type, vdata := ptr\<rparr>]\<rparr>
                      in touch_key p REG_NOTIFY_CHANGE_LAST_SET
                           (s\<lparr>root_key := update_key (update_node (\<lambda>_. n')) p (root_key s)\<rparr>)))))"

section \<open>Subkeys, path tokens and WoW64 redirection\<close>

definition is_wow6432node :: "(WCHAR \<Rightarrow> WCHAR) \<Rightarrow> WCHAR list \<Rightarrow> bool" where
  "is_wow6432node tolowerW name =
     (2 * length name = 2 * length wow6432node \<and>
      memicmpW tolowerW name wow6432node (length wow6432node) = 0)"

text \<open>\<open>find_subkey\<close>: binary search in the sorted array of subkeys; the result is the index
  of the subkey found, or \<open>None\<close>, and \<open>*index\<close>.\<close>

definition key_name_cmp :: "(WCHAR \<Rightarrow> WCHAR) \<Rightarrow> key \<Rightarrow> WCHAR list \<Rightarrow> int" where
  "key_name_cmp tolowerW k name =
     (let len = min (2 * length (obj_name (node k))) (2 * length name);
          res = memicmpW tolowerW (obj_name (node k)) name (len div 2)
      in if res = 0 then int (2 * length (obj_name (node k))) - int (2 * length name) else res)"

function find_subkey_loop ::
  "(WCHAR \<Rightarrow> WCHAR) \<Rightarrow> key list \<Rightarrow> WCHAR list \<Rightarrow> int \<Rightarrow> int \<Rightarrow> nat option \<times> nat"
where
  "find_subkey_loop tolowerW ks name mn mx =
     (if mn \<le> mx then
        (if key_name_cmp tolowerW (ks ! nat ((mn + mx) div 2)) name = 0
           then (Some (nat ((mn + mx) div 2)), nat ((mn + mx) div 2))
         else if key_name_cmp tolowerW (ks ! nat ((mn + mx) div 2)) name > 0
           then find_subkey_loop tolowerW ks name mn ((mn + mx) div 2 - 1)
         else find_subkey_loop tolowerW ks name ((mn + mx) div 2 + 1) mx)
      else (None, nat mn))"
  by pat_completeness auto
termination
proof (relation "measure (\<lambda>(tolowerW, ks, name, mn, mx). nat (mx - mn + 1))")
  show "wf (measure (\<lambda>(tolowerW, ks, name, mn, mx). nat (mx - mn + 1)))"
    by simp
next
  fix tolowerW :: "WCHAR \<Rightarrow> WCHAR" and ks :: "key list" and name :: "WCHAR list"
    and mn mx :: int
  assume "mn \<le> mx"
  then have "nat ((mn + mx) div 2 - 1 - mn + 1) < nat (mx - mn + 1)"
    by linarith
  then show "((tolowerW, ks, name, mn, (mn + mx) div 2 - 1), (tolowerW, ks, name, mn, mx))
      \<in> measure (\<lambda>(tolowerW, ks, name, mn, mx). nat (mx - mn + 1))"
    by simp
next
  fix tolowerW :: "WCHAR \<Rightarrow> WCHAR" and ks :: "key list" and name :: "WCHAR list"
    and mn mx :: int
  assume "mn \<le> mx"
  then have "nat (mx - ((mn + mx) div 2 + 1) + 1) < nat (mx - mn + 1)"
    by linarith
  then show "((tolowerW, ks, name, (mn + mx) div 2 + 1, mx), (tolowerW, ks, name, mn, mx))
      \<in> measure (\<lambda>(tolowerW, ks, name, mn, mx). nat (mx - mn + 1))"
    by simp
qed

definition find_subkey :: "(WCHAR \<Rightarrow> WCHAR) \<Rightarrow> key \<Rightarrow> WCHAR list \<Rightarrow> nat option \<times> nat" where
  "find_subkey tolowerW k name =
     find_subkey_loop tolowerW (subkeys k) name 0 (int (length (subkeys k)) - 1)"

text \<open>
  \<open>get_path_token\<close>. A token is a place in the path: its offset and its length, both in
  characters; \<open>None\<close> is the token \<open>{0}\<close> of the first call. The result is the next
  token, or the error of a path that starts with a backslash (the token is then left as it
  was).
\<close>

definition get_path_token :: "WCHAR list \<Rightarrow> (nat \<times> nat) option \<Rightarrow> status + nat \<times> nat" where
  "get_path_token path token =
     (case token of
        None \<Rightarrow>
          if path \<noteq> [] \<and> hd path = backslash then Inl STATUS_OBJECT_PATH_INVALID
          else Inr (0, length (takeWhile (\<lambda>c. c \<noteq> backslash) path))
      | Some (off, l) \<Rightarrow>
          (let i = off + l + length (takeWhile (\<lambda>c. c = backslash) (drop (off + l) path))
           in Inr (i, length (takeWhile (\<lambda>c. c \<noteq> backslash) (drop i path)))))"

definition token_str :: "WCHAR list \<Rightarrow> (nat \<times> nat) option \<Rightarrow> WCHAR list" where
  "token_str path token = (case token of None \<Rightarrow> [] | Some (off, l) \<Rightarrow> take l (drop off path))"

text \<open>
  \<open>find_wow64_subkey\<close>: the WoW64 variant of the key, or the key itself. The source
  dereferences \<open>key->parent\<close> and the subkeys it looks up without a test and asserts that
  they exist; the result \<open>None\<close> stands for the server aborting there.
\<close>

definition find_wow64_subkey ::
  "(WCHAR \<Rightarrow> WCHAR) \<Rightarrow> key \<Rightarrow> key_ref \<Rightarrow> WCHAR list \<Rightarrow> key_ref option" where
  "find_wow64_subkey tolowerW root p name =
     (case key_at root p of
        None \<Rightarrow> None
      | Some k \<Rightarrow>
          if key_flags k AND KEY_WOW64 = 0 then Some p
          else if p = [] then None
          else (case key_at root (butlast p) of
              None \<Rightarrow> None
            | Some par \<Rightarrow>
                if key_flags par AND KEY_WOWSHARE \<noteq> 0 then
                  (case fst (find_subkey tolowerW par wow6432node) of
                     None \<Rightarrow> None
                   | Some w \<Rightarrow>
                       (case fst (find_subkey tolowerW (subkeys par ! w) (obj_name (node k))) of
                          None \<Rightarrow> None
                        | Some i \<Rightarrow> Some (butlast p @ [w, i])))
                else if \<not> is_wow6432node tolowerW name then
                  (case fst (find_subkey tolowerW k wow6432node) of
                     None \<Rightarrow> None
                   | Some i \<Rightarrow> Some (p @ [i]))
                else Some p))"

section \<open>The collaborators of the engine\<close>

text \<open>
  The handle table (\<open>handle.c\<close>) and the object manager (\<open>object.c\<close>) are not among the
  sources. The request handlers are given them as the functions of a \<open>server\<close>:
  \<^item> \<open>get_handle_obj h access\<close> is the key that handle \<open>h\<close> denotes, or the error it sets
    when the handle is invalid or does not grant \<open>access\<close>;
  \<^item> \<open>alloc_handle key access attr\<close> is a new handle for the key, or the error it sets;
  \<^item> \<open>open_named_object\<close> and \<open>create_named_object\<close> take the parent (if any), the name
    and the attributes, and return the key (\<open>None\<close> for a null pointer) and the registry
    they leave behind, the error slot included.
\<close>

record server =
  get_handle_obj :: "nat \<Rightarrow> 32 word \<Rightarrow> status + key_ref"
  alloc_handle :: "key_ref \<Rightarrow> 32 word \<Rightarrow> 32 word \<Rightarrow> status + nat"
  open_named_object :: "key_ref option \<Rightarrow> WCHAR list \<Rightarrow> 32 word \<Rightarrow> registry \<Rightarrow> key_ref option \<times> registry"
  create_named_object :: "key_ref option \<Rightarrow> WCHAR list \<Rightarrow> 32 word \<Rightarrow> registry \<Rightarrow> key_ref option \<times> registry"

text \<open>\<open>get_hkey_obj\<close>: the key of a handle, unless it has been deleted. A key that has
  been deleted is no longer in the tree, so a pointer that leads nowhere is a deleted key.\<close>

definition get_hkey_obj :: "server \<Rightarrow> nat \<Rightarrow> 32 word \<Rightarrow> registry \<Rightarrow> key_ref option \<times> registry" where
  "get_hkey_obj srv h access s =
     (case get_handle_obj srv h access of
        Inl e \<Rightarrow> (None, s\<lparr>error := e\<rparr>)
      | Inr p \<Rightarrow>
          (case key_at (root_key s) p of
             None \<Rightarrow> (None, s\<lparr>error := STATUS_KEY_DELETED\<rparr>)
           | Some k \<Rightarrow>
               if key_flags k AND KEY_DELETED \<noteq> 0 then (None, s\<lparr>error := STATUS_KEY_DELETED\<rparr>)
               else (Some p, s)))"

text \<open>\<open>is_wow64_thread\<close>: a 32-bit client on a 64-bit prefix; \<open>cpu64\<close> tells whether the
  client's process runs on a 64-bit CPU type.\<close>

definition is_wow64_thread :: "registry \<Rightarrow> bool \<Rightarrow> bool" where
  "is_wow64_thread s cpu64 = (prefix s = PREFIX_64BIT \<and> \<not> cpu64)"

section \<open>Opening a key\<close>

record open_key_request =
  ok_parent :: nat
  ok_access :: "32 word"
  ok_attributes :: "32 word"
  ok_name :: "WCHAR list"

text \<open>
  \<open>DECL_HANDLER(open_key)\<close>. \<open>ok_name\<close> is the string of \<open>get_req_unicode_str\<close>, so
  \<open>name.len\<close>, a count of bytes, is twice its length. The result is \<open>reply->hkey\<close> (0 when
  it is not set) and the registry, or \<open>None\<close> when the server aborts in
  \<open>find_wow64_subkey\<close>.
\<close>

definition open_key_handler ::
  "server \<Rightarrow> (WCHAR \<Rightarrow> WCHAR) \<Rightarrow> bool \<Rightarrow> open_key_request \<Rightarrow> registry \<Rightarrow> (nat \<times> registry) option"
where
  "open_key_handler srv tolowerW cpu64 req s =
     (if 2 * length (ok_name req) \<ge> 65534 then Some (0, s\<lparr>error := STATUS_OBJECT_NAME_INVALID\<rparr>)
      else
        (let (parent0, s1) = (if ok_parent req \<noteq> 0 then get_hkey_obj srv (ok_parent req) 0 s
                              else (None, s))
         in if ok_parent req \<noteq> 0 \<and> parent0 = None then Some (0, s1)
            else
              (let attributes = (if is_wow64_thread s1 cpu64 \<and> ok_access req AND KEY_WOW64_64KEY = 0
                                 then ok_attributes req OR WINE_OBJ_WOW64 else ok_attributes req);
                   tok = (if parent0 \<noteq> None \<and> ok_access req AND KEY_WOW64_32KEY \<noteq> 0
                          then get_path_token (ok_name req) None else Inr (0, 0));
                   s2 = (case tok of Inl e \<Rightarrow> s1\<lparr>error := e\<rparr> | Inr t \<Rightarrow> s1);
                   token = (case tok of Inl e \<Rightarrow> None | Inr t \<Rightarrow> Some t);
                   parent1 = (case parent0 of
                       None \<Rightarrow> Some None
                     | Some p \<Rightarrow>
                         if ok_access req AND KEY_WOW64_32KEY \<noteq> 0
                         then map_option Some
                                (find_wow64_subkey tolowerW (root_key s2) p
                                   (token_str (ok_name req) token))
                         else Some (Some p))
               in case parent1 of
                    None \<Rightarrow> None
                  | Some par \<Rightarrow>
                      (case open_named_object srv par (ok_name req) attributes s2 of
                         (None, s3) \<Rightarrow> Some (0, s3)
                       | (Some key, s3) \<Rightarrow>
                           (case alloc_handle srv key (ok_access req) (ok_attributes req) of
                              Inl e \<Rightarrow> Some (0, s3\<lparr>error := e\<rparr>)
                            | Inr h \<Rightarrow> Some (h, s3))))))"

section \<open>Querying a key\<close>












section \<open>Saving a branch\<close>

text \<open>
  \<open>save_branch\<close> talks to the file system. What the file system answers is given by an
  \<open>fs_env\<close>: whether \<open>open(path, O_WRONLY)\<close> succeeds, what \<open>lstat\<close> reports (\<open>None\<close> when
  it fails; for a symbolic link it reports a file that is not regular), whether \<open>malloc\<close>
  succeeds, what the exclusive \<open>open\<close> of the temporary file with counter \<open>n\<close> answers,
  whether \<open>fdopen\<close>, \<open>fclose\<close> and \<open>rename\<close> succeed, and the process id. What
  \<open>save_branch\<close> does to the file system is the list of its calls, in order;
  \<open>Write_branch\<close> stands for the text that \<open>save_all_subkeys\<close> prints.
\<close>

record stat =
  st_isreg :: bool
  st_nlink :: nat

datatype open_result = Opened | EEXIST | Open_failed

record fs_env =
  open_dest :: bool
  lstat_dest :: "stat option"
  malloc_ok :: bool
  open_tmp :: "nat \<Rightarrow> open_result"
  fdopen_ok :: bool
  fclose_ok :: bool
  rename_ok :: bool
  getpid :: nat

datatype syscall =
    Open string
  | Lstat string
  | Ftruncate
  | Close
  | Open_excl string
  | Fdopen
  | Write_branch
  | Fclose
  | Rename string string
  | Unlink string

text \<open>The formats \<open>%lx\<close> and \<open>%04x\<close> of \<open>sprintf\<close>.\<close>

definition hex_digit :: "nat \<Rightarrow> char" where
  "hex_digit d = ''0123456789abcdef'' ! d"

fun hex :: "nat \<Rightarrow> string" where
  "hex n = (if n < 16 then [hex_digit n] else hex (n div 16) @ [hex_digit (n mod 16)])"

definition hex04 :: "nat \<Rightarrow> string" where
  "hex04 n = replicate (4 - length (hex n)) CHR ''0'' @ hex n"

text \<open>The name of the temporary file: the part of \<open>path\<close> up to its last slash, then
  \<open>reg<pid><counter>.tmp\<close>.\<close>

definition dir_prefix :: "string \<Rightarrow> string" where
  "dir_prefix path = rev (dropWhile (\<lambda>c. c \<noteq> CHR ''/'') (rev path))"

definition tmp_name :: "string \<Rightarrow> nat \<Rightarrow> nat \<Rightarrow> string" where
  "tmp_name path pid count = dir_prefix path @ ''reg'' @ hex pid @ hex04 count @ ''.tmp''"

text \<open>
  The loop \<open>for (;;)\<close> that looks for an unused name, from counter \<open>count\<close> on. It ends
  with the counter of the last attempt and whether that attempt opened the file; as long
  as every name exists it goes on, so the result is an option.
\<close>

partial_function (option) create_tmp :: "fs_env \<Rightarrow> nat \<Rightarrow> (bool \<times> nat) option" where
  "create_tmp env count =
     (case open_tmp env count of
        Opened \<Rightarrow> Some (True, count)
      | Open_failed \<Rightarrow> Some (False, count)
      | EEXIST \<Rightarrow> create_tmp env (Suc count))"

text \<open>The calls of the loop when its last attempt has the counter \<open>n\<close>: each attempt
  that found the name taken is followed by the \<open>close\<close> of the source.\<close>

definition tmp_attempts :: "string \<Rightarrow> nat \<Rightarrow> nat \<Rightarrow> syscall list" where
  "tmp_attempts path pid n =
     concat (map (\<lambda>i. [Open_excl (tmp_name path pid i), Close]) [0..<n]) @
     [Open_excl (tmp_name path pid n)]"

text \<open>
  \<open>save_branch\<close> from the label \<open>save:\<close> on. \<open>tmp\<close> is the name of the temporary file, or
  \<open>None\<close> when the branch is written into the destination itself; \<open>tr\<close> are the calls so
  far. The result is the return value, the key (cleaned when the value is 1) and the
  calls.
\<close>

definition save_to ::
  "fs_env \<Rightarrow> key \<Rightarrow> string \<Rightarrow> string option \<Rightarrow> syscall list \<Rightarrow> int \<times> key \<times> syscall list" where
  "save_to env key path tmp tr =
     (if \<not> fdopen_ok env
      then (0, key, tr @ [Fdopen] @ (case tmp of None \<Rightarrow> [] | Some t \<Rightarrow> [Unlink t]) @ [Close])
      else
        (let tr1 = tr @ [Fdopen, Write_branch, Fclose];
             ret0 = fclose_ok env;
             ret = (case tmp of None \<Rightarrow> ret0 | Some t \<Rightarrow> if ret0 then rename_ok env else False);
             tr2 = (case tmp of
                 None \<Rightarrow> tr1
               | Some t \<Rightarrow> tr1 @ (if ret0 then [Rename t path] else []) @
                           (if \<not> ret then [Unlink t] else []))
         in if ret then (1, make_clean key, tr2) else (0, key, tr2)))"

definition save_branch :: "fs_env \<Rightarrow> key \<Rightarrow> string \<Rightarrow> (int \<times> key \<times> syscall list) option" where
  "save_branch env key path =
     (if key_flags key AND KEY_DIRTY = 0 then Some (1, key, [])
      else if open_dest env \<and>
              (case lstat_dest env of
                 None \<Rightarrow> False
               | Some st \<Rightarrow> \<not> st_isreg st \<or> st_nlink st > 1)
      then Some (save_to env key path None [Open path, Lstat path, Ftruncate])
      else
        (let tr = (if open_dest env then [Open path, Lstat path, Close] else [Open path])
         in if \<not> malloc_ok env then Some (0, key, tr)
            else
              (case create_tmp env 0 of
                 None \<Rightarrow> None
               | Some (opened, n) \<Rightarrow>
                   if \<not> opened then Some (0, key, tr @ tmp_attempts path (getpid env) n)
                   else Some (save_to env key path (Some (tmp_name path (getpid env) n))
                                (tr @ tmp_attempts path (getpid env) n)))))"

declare create_tmp.simps [code]

section \<open>Observing the tree\<close>

text \<open>
  The node of the key at \<open>p\<close>, its subscriptions (none when there is no such key), and
  the parents of the key at \<open>p\<close>, nearest first: the keys that the loop
  \<open>for (k = key->parent; k; k = k->parent)\<close> visits.
\<close>

definition node_at :: "key \<Rightarrow> key_ref \<Rightarrow> key_node option" where
  "node_at root p = map_option node (key_at root p)"

definition notify_at :: "key \<Rightarrow> key_ref \<Rightarrow> notify list" where
  "notify_at root p = (case node_at root p of None \<Rightarrow> [] | Some n \<Rightarrow> notify_list n)"

function ancestors :: "key_ref \<Rightarrow> key_ref list" where
  "ancestors p = (if p = [] then [] else butlast p # ancestors (butlast p))"
  by pat_completeness auto
termination
  by (relation "measure length") auto

text \<open>What \<open>check_notify\<close> makes of a list of subscriptions, and the events it sets.\<close>

definition notified :: "32 word \<Rightarrow> bool \<Rightarrow> notify list \<Rightarrow> notify list" where
  "notified c b ns =
     map (\<lambda>n. if (b \<or> subtree n) \<and> c AND filter n \<noteq> 0 then n\<lparr>event := None\<rparr> else n) ns"

definition fired :: "32 word \<Rightarrow> bool \<Rightarrow> notify list \<Rightarrow> nat list" where
  "fired c b ns =
     List.map_filter (\<lambda>n. if (b \<or> subtree n) \<and> c AND filter n \<noteq> 0 then event n else None) ns"

declare make_dirty.simps [simp del]
declare notify_parents.simps(2) [simp del]

section \<open>The order of the values\<close>

text \<open>
  The lower-cased name as the list of its code units, and the order that the search in
  \<open>find_value\<close> relies on: every value sorts before the values that follow it, by the
  comparison of the search itself.
\<close>

definition lower_name :: "(WCHAR \<Rightarrow> WCHAR) \<Rightarrow> WCHAR list \<Rightarrow> nat list" where
  "lower_name tolowerW name = map (\<lambda>c. unat (tolowerW c)) name"

definition values_sorted :: "(WCHAR \<Rightarrow> WCHAR) \<Rightarrow> key_value list \<Rightarrow> bool" where
  "values_sorted tolowerW vals =
     sorted_wrt (\<lambda>a b. value_name_cmp tolowerW a (vname b) < 0) vals"

text \<open>
  \<open>has_value\<close>: among the values there is one of the given name (compared after
  lower-casing), with the given type and the given data pointer; \<open>None\<close> is the null
  pointer of a value of length 0.
\<close>

definition has_value :: "(WCHAR \<Rightarrow> WCHAR) \<Rightarrow> key_value list \<Rightarrow> WCHAR list \<Rightarrow> 32 word \<Rightarrow> byte list option \<Rightarrow> bool" where
  "has_value lw vals name type ptr =
     (\<exists>v \<in> set vals. lower_name lw (vname v) = lower_name lw name \<and> vtype v = type \<and> vdata v = ptr)"

section \<open>Example registries\<close>

text \<open>A lower-casing function for the examples: the ASCII letters.\<close>

definition ascii_lower :: "WCHAR \<Rightarrow> WCHAR" where
  "ascii_lower c = (if 0x41 \<le> c \<and> c \<le> 0x5A then c + 0x20 else c)"

text \<open>
  A key named \<open>A\<close> with one value named \<open>a\<close> of type 1 (\<open>REG_SZ\<close>) and one armed
  subscription for value changes, with event 7. The examples differ in the payload of
  the value and in the flags of the key.
\<close>

definition example_node :: "byte list option \<Rightarrow> 32 word \<Rightarrow> key_node" where
  "example_node payload fl =
     \<lparr>obj_name = [0x41], key_class = None,
      key_values = [\<lparr>vname = [0x61], vtype = 1, vdata = payload\<rparr>], nb_values = 8,
      flags = fl, modif = 0,
      notify_list = [\<lparr>event = Some 7, subtree = False, filter = REG_NOTIFY_CHANGE_LAST_SET,
                      hkey = 1, process = 1\<rparr>]\<rparr>"

definition example_registry :: "byte list option \<Rightarrow> 32 word \<Rightarrow> registry" where
  "example_registry payload fl =
     \<lparr>root_key = Key (example_node payload fl) [], prefix = PREFIX_64BIT, current_time = 100,
      error = STATUS_SUCCESS, signalled = []\<rparr>"

text \<open>
  A server for the examples: handle 1 denotes the root key and grants every access, every
  other handle is invalid; new handles have the number 4; the object manager finds no
  key.
\<close>

definition example_server :: server where
  "example_server =
     \<lparr>get_handle_obj = (\<lambda>h access. if h = 1 then Inr [] else Inl STATUS_INVALID_HANDLE),
      alloc_handle = (\<lambda>key access attr. Inr 4),
      open_named_object =
        (\<lambda>par name attr s. (None, s\<lparr>error := STATUS_OBJECT_NAME_NOT_FOUND\<rparr>)),
      create_named_object =
        (\<lambda>par name attr s. (None, s\<lparr>error := STATUS_OBJECT_NAME_NOT_FOUND\<rparr>))\<rparr>"

text \<open>
  A tree for the examples: the root \<open>REGISTRY\<close> with the subkeys \<open>A\<close> and \<open>B\<close>, and
  \<open>X\<close> below \<open>A\<close>. The keys have no values; flags and subscriptions are given.
\<close>

definition simple_node :: "WCHAR list \<Rightarrow> 32 word \<Rightarrow> notify list \<Rightarrow> key_node" where
  "simple_node name fl ns =
     \<lparr>obj_name = name, key_class = None, key_values = [], nb_values = 0,
      flags = fl, modif = 0, notify_list = ns\<rparr>"


definition tree_registry :: "key \<Rightarrow> registry" where
  "tree_registry t =
     \<lparr>root_key = t, prefix = PREFIX_64BIT, current_time = 100,
      error = STATUS_SUCCESS, signalled = []\<rparr>"


text \<open>
  A file system for the examples: the destination can be opened and \<open>lstat\<close> reports
  \<open>st\<close>; the first temporary name is taken, the second is free; every other call
  succeeds; the process id is \<open>0x1a2b\<close>. And a dirty key with a dirty subkey.
\<close>

definition example_fs :: "stat option \<Rightarrow> fs_env" where
  "example_fs st =
     \<lparr>open_dest = True, lstat_dest = st, malloc_ok = True,
      open_tmp = (\<lambda>n. if n = 0 then EEXIST else Opened),
      fdopen_ok = True, fclose_ok = True, rename_ok = True, getpid = 0x1a2b\<rparr>"

definition dirty_key :: key where
  "dirty_key = Key (simple_node [0x41] KEY_DIRTY []) [Key (simple_node [0x58] KEY_DIRTY []) []]"

definition clean_key :: key where
  "clean_key = Key (simple_node [0x41] 0 []) [Key (simple_node [0x58] 0 []) []]"

text \<open>
  The example tree with subscriptions: on the root a subtree subscription for name and
  value changes (event 1); on \<open>A\<close> a subtree subscription (event 2) and a plain one
  (event 3) for name changes; on \<open>X\<close> below \<open>A\<close> a subscription for name changes
  (event 4) and one for value changes (event 5).
\<close>

definition subscription :: "nat \<Rightarrow> bool \<Rightarrow> 32 word \<Rightarrow> notify" where
  "subscription e sub f = \<lparr>event = Some e, subtree = sub, filter = f, hkey = e, process = 1\<rparr>"

definition notify_tree :: key where
  "notify_tree =
     Key (simple_node [0x52, 0x45, 0x47, 0x49, 0x53, 0x54, 0x52, 0x59] 0
            [subscription 1 True (REG_NOTIFY_CHANGE_NAME OR REG_NOTIFY_CHANGE_LAST_SET)])
       [Key (simple_node [0x41] 0
               [subscription 2 True REG_NOTIFY_CHANGE_NAME,
                subscription 3 False REG_NOTIFY_CHANGE_NAME])
          [Key (simple_node [0x58] 0
                  [subscription 4 False REG_NOTIFY_CHANGE_NAME,
                   subscription 5 False REG_NOTIFY_CHANGE_LAST_SET]) []],
        Key (simple_node [0x42] 0 []) []]"

text \<open>An allocator that never fails; the unused slot holds the type 0.\<close>

definition all_memory :: allocator where
  "all_memory = \<lparr>data_alloc = True, values_alloc = True, name_alloc = True, slot_type = 0\<rparr>"

text \<open>
  A key with three values: \<open>a\<close> of type 1 with the bytes 1, 2; \<open>b\<close> of type 3 with the
  byte 7; \<open>d\<close> of type 1 with no bytes. It has the subscription of the key above. And an
  allocator that always fails.
\<close>

definition values_node :: "32 word \<Rightarrow> key_node" where
  "values_node fl =
     \<lparr>obj_name = [0x41], key_class = None,
      key_values = [\<lparr>vname = [0x61], vtype = 1, vdata = Some [1, 2]\<rparr>,
                    \<lparr>vname = [0x62], vtype = 3, vdata = Some [7]\<rparr>,
                    \<lparr>vname = [0x64], vtype = 1, vdata = None\<rparr>],
      nb_values = 8, flags = fl, modif = 0,
      notify_list = [\<lparr>event = Some 7, subtree = False, filter = REG_NOTIFY_CHANGE_LAST_SET,
                      hkey = 1, process = 1\<rparr>]\<rparr>"

definition values_registry :: "32 word \<Rightarrow> registry" where
  "values_registry fl =
     \<lparr>root_key = Key (values_node fl) [], prefix = PREFIX_64BIT, current_time = 100,
      error = STATUS_SUCCESS, signalled = []\<rparr>"

definition no_memory :: allocator where
  "no_memory = \<lparr>data_alloc = False, values_alloc = False, name_alloc = False, slot_type = 0\<rparr>"

section \<open>Lemmas\<close>

lemma memicmpW_eq_0_iff:
  "length a = length b \<Longrightarrow>
   (memicmpW tolowerW a b (length a) = 0) = (map tolowerW a = map tolowerW b)"
proof (induction a arbitrary: b)
  case Nil
  then show ?case by simp
next
  case (Cons x xs)
  then obtain y ys where b: "b = y # ys" and l: "length xs = length ys"
    by (cases b) auto
  have u: "(uint (tolowerW x) = uint (tolowerW y)) = (tolowerW x = tolowerW y)"
    by (auto intro: word_uint_eqI)
  show ?case using Cons.IH [OF l] l u by (auto simp add: b Let_def)
qed

lemma set_value_skip:
  assumes "key_at (root_key s) p = Some k"
    and "find_value tolowerW k name = (Some v, i)"
    and "vtype v = type" and "vdata v = Some data"
  shows "set_value tolowerW mem p name type data s = s"
  using assms by (simp add: set_value_def vlen_def)



lemma create_tmp_finds:
  "\<forall>i. c \<le> i \<and> i < n \<longrightarrow> open_tmp env i = EEXIST \<Longrightarrow> open_tmp env n = Opened \<Longrightarrow> c \<le> n
   \<Longrightarrow> create_tmp env c = Some (True, n)"
proof (induction "n - c" arbitrary: c)
  case 0
  then have "c = n" by simp
  then show ?case using 0 by (simp add: create_tmp.simps)
next
  case (Suc d)
  then have lt: "c < n" by simp
  then have "open_tmp env c = EEXIST" using Suc.prems by simp
  moreover have "create_tmp env (Suc c) = Some (True, n)"
    using Suc lt by (intro Suc.hyps) auto
  ultimately show ?case by (simp add: create_tmp.simps)
qed

lemma dir_prefix_idem:
  assumes "CHR ''/'' \<notin> set b"
  shows "dir_prefix (dir_prefix path @ b) = dir_prefix path"
proof -
  let ?P = "\<lambda>c. c \<noteq> CHR ''/''"
  have 1: "dropWhile ?P (rev b @ xs) = dropWhile ?P xs" for xs
    by (rule dropWhile_append2) (use assms in auto)
  have 2: "dropWhile ?P (dropWhile ?P xs) = dropWhile ?P xs" for xs
    by (simp add: dropWhile_idem)
  show ?thesis
    by (simp add: dir_prefix_def 1 2)
qed

lemma hex_digit_noslash: "d < 16 \<Longrightarrow> hex_digit d \<noteq> CHR ''/''"
proof -
  assume "d < 16"
  then have "hex_digit d \<in> set ''0123456789abcdef''"
    using nth_mem [of d "''0123456789abcdef''"] by (simp add: hex_digit_def)
  then show ?thesis
    by auto
qed

lemma hex_noslash: "CHR ''/'' \<notin> set (hex n)"
proof (induction n rule: hex.induct)
  case (1 n)
  show ?case
  proof (cases "n < 16")
    case True
    then show ?thesis using hex_digit_noslash [of n] by (simp del: hex.simps add: hex.simps [of n])
  next
    case False
    then show ?thesis using 1 hex_digit_noslash [of "n mod 16"]
      by (simp del: hex.simps add: hex.simps [of n])
  qed
qed

lemma tmp_name_same_dir: "dir_prefix (tmp_name path pid n) = dir_prefix path"
  using dir_prefix_idem [of "''reg'' @ hex pid @ hex04 n @ ''.tmp''" path] hex_noslash
  by (simp add: tmp_name_def hex04_def del: hex.simps)

lemma tmp_name_example:
  "tmp_name ''/cfg/system.reg'' 0x1a2b (Suc 0) = ''/cfg/reg1a2b0001.tmp''"
  by (simp add: tmp_name_def dir_prefix_def hex04_def hex_digit_def numeral_3_eq_3)

lemma tmp_attempts_example:
  "tmp_attempts ''/cfg/system.reg'' 0x1a2b (Suc 0)
     = [Open_excl ''/cfg/reg1a2b0000.tmp'', Close, Open_excl ''/cfg/reg1a2b0001.tmp'']"
  by (simp add: tmp_attempts_def tmp_name_def dir_prefix_def hex04_def hex_digit_def
      numeral_3_eq_3)

lemma make_clean_dirty_key: "make_clean dirty_key = clean_key"
  by (simp add: dirty_key_def clean_key_def simple_node_def KEY_DIRTY_def KEY_VOLATILE_def)

lemma node_at_Nil [simp]: "node_at k [] = Some (node k)"
  by (simp add: node_at_def)

lemma node_at_Cons:
  "node_at k (i # p) = (if i < length (subkeys k) then node_at (subkeys k ! i) p else None)"
  by (simp add: node_at_def)

lemma node_at_update:
  "key_at root p = Some k \<Longrightarrow>
   node_at (update_key (update_node f) p root) q =
     (if q = p then Some (f (node k)) else node_at root q)"
proof (induction p arbitrary: root q)
  case Nil
  then show ?case
    by (cases q) (auto simp: update_node_def node_at_Cons)
next
  case (Cons i p)
  then have i: "i < length (subkeys root)" and k: "key_at (subkeys root ! i) p = Some k"
    by (auto split: if_splits)
  show ?case
  proof (cases q)
    case Nil
    then show ?thesis using i by simp
  next
    case (Cons j q')
    show ?thesis
    proof (cases "j = i")
      case True
      then show ?thesis
        using i Cons.IH [OF k, of q'] Cons by (simp add: node_at_Cons)
    next
      case False
      then show ?thesis
        using i Cons by (simp add: node_at_Cons)
    qed
  qed
qed

lemma node_at_key_at: "node_at root p = Some n \<Longrightarrow> \<exists>k. key_at root p = Some k \<and> node k = n"
  by (auto simp: node_at_def)

lemma key_at_node_at: "key_at root p = Some k \<Longrightarrow> node_at root p = Some (node k)"
  by (simp add: node_at_def)

lemma make_dirty_notify:
  "map_option notify_list (node_at (make_dirty p root) q) = map_option notify_list (node_at root q)"
proof (induction p root arbitrary: q rule: make_dirty.induct)
  case (1 p root)
  show ?case
  proof (cases "key_at root p")
    case None
    then show ?thesis by (subst make_dirty.simps) simp
  next
    case (Some k)
    let ?root' = "update_key (update_node (\<lambda>n. n\<lparr>flags := flags n OR KEY_DIRTY\<rparr>)) p root"
    have u: "map_option notify_list (node_at ?root' q) = map_option notify_list (node_at root q)" for q
      using node_at_update [OF Some, of "\<lambda>n. n\<lparr>flags := flags n OR KEY_DIRTY\<rparr>" q]
        key_at_node_at [OF Some] by auto
    show ?thesis
    proof (cases "key_flags k AND (KEY_DIRTY OR KEY_VOLATILE) \<noteq> 0")
      case True
      then show ?thesis using Some by (subst make_dirty.simps) simp
    next
      case False
      show ?thesis
      proof (cases "p = []")
        case True
        then show ?thesis using Some False u by (subst make_dirty.simps) (simp add: Let_def)
      next
        case np: False
        have "map_option notify_list (node_at (make_dirty (butlast p) ?root') q)
            = map_option notify_list (node_at ?root' q)"
          using "1.IH" [OF Some _ _ np, of ?root' q] False by simp
        then show ?thesis
          using Some False np u by (subst make_dirty.simps) (simp add: Let_def)
      qed
    qed
  qed
qed


lemma check_notify_list_eq:
  "check_notify_list ns c b =
     (map (\<lambda>n. if (b \<or> subtree n) \<and> c AND filter n \<noteq> 0 then n\<lparr>event := None\<rparr> else n) ns,
      List.map_filter (\<lambda>n. if (b \<or> subtree n) \<and> c AND filter n \<noteq> 0 then event n else None) ns)"
proof (induction ns)
  case Nil
  then show ?case by (simp add: List.map_filter_simps)
next
  case (Cons n ns)
  then show ?case
    by (cases "event n") (auto simp add: List.map_filter_simps do_notification_def)
qed

lemma check_notify_node_at:
  assumes "key_at (root_key s) p = Some k"
  shows "node_at (root_key (check_notify p c b s)) q =
           (if q = p
            then Some ((node k)\<lparr>notify_list := fst (check_notify_list (notify_list (node k)) c b)\<rparr>)
            else node_at (root_key s) q)"
    and "signalled (check_notify p c b s) =
           signalled s @ snd (check_notify_list (notify_list (node k)) c b)"
  using assms node_at_update [OF assms, of _ q]
  by (auto simp add: check_notify_def Let_def split: prod.splits)

lemma check_notify_missing:
  "key_at (root_key s) p = None \<Longrightarrow> check_notify p c b s = s"
  by (simp add: check_notify_def)

lemma ancestors_Nil [simp]: "ancestors [] = []"
  by simp

lemma ancestors_nonempty: "p \<noteq> [] \<Longrightarrow> ancestors p = butlast p # ancestors (butlast p)"
  by (subst ancestors.simps) simp

declare ancestors.simps [simp del]

lemma ancestors_shorter: "q \<in> set (ancestors p) \<Longrightarrow> length q < length p"
proof (induction p rule: ancestors.induct)
  case (1 p)
  show ?case
  proof (cases "p = []")
    case True
    then show ?thesis using "1.prems" by simp
  next
    case False
    then show ?thesis
      using 1 by (auto simp add: ancestors_nonempty)
  qed
qed

lemma ancestors_prefix: "q \<in> set (ancestors p) \<Longrightarrow> \<exists>r. p = q @ r \<and> r \<noteq> []"
proof (induction p rule: ancestors.induct)
  case (1 p)
  show ?case
  proof (cases "p = []")
    case True
    then show ?thesis using "1.prems" by simp
  next
    case False
    then have p: "p = butlast p @ [last p]" by simp
    from False "1.prems" have "q = butlast p \<or> q \<in> set (ancestors (butlast p))"
      by (simp add: ancestors_nonempty)
    then show ?thesis
    proof
      assume "q = butlast p"
      then show ?thesis using p by (intro exI [of _ "[last p]"]) simp
    next
      assume "q \<in> set (ancestors (butlast p))"
      then obtain r where "butlast p = q @ r" using "1.IH" [OF False] by blast
      then have "p = q @ (r @ [last p])" using p by (metis append_assoc)
      then show ?thesis by blast
    qed
  qed
qed

lemma key_at_prefix: "key_at root (p @ q) = Some k \<Longrightarrow> \<exists>k'. key_at root p = Some k'"
  by (induction root p rule: key_at.induct) (auto split: if_splits)

lemma ancestors_key_at:
  "key_at root p = Some k \<Longrightarrow> q \<in> set (ancestors p) \<Longrightarrow> key_at root q \<noteq> None"
  using ancestors_prefix [of q p] key_at_prefix [of root q _ k] by auto

lemma notify_parents_Some:
  "notify_parents (Some p) c s =
     notify_parents (parent p) c (check_notify p (c AND NOT REG_NOTIFY_CHANGE_LAST_SET) False s)"
  unfolding parent_def by (rule notify_parents.simps(2))

lemma notify_parents_eq:
  assumes "\<forall>r \<in> set (q0 # ancestors q0). key_at (root_key s) r \<noteq> None"
  shows "(\<forall>q. notify_at (root_key (notify_parents (Some q0) c s)) q =
           (if q \<in> set (q0 # ancestors q0)
            then notified (c AND NOT REG_NOTIFY_CHANGE_LAST_SET) False (notify_at (root_key s) q)
            else notify_at (root_key s) q))
       \<and> signalled (notify_parents (Some q0) c s) =
           signalled s @
           concat (map (\<lambda>q. fired (c AND NOT REG_NOTIFY_CHANGE_LAST_SET) False
                               (notify_at (root_key s) q)) (q0 # ancestors q0))"
  using assms
proof (induction "length q0" arbitrary: q0 s)
  case 0
  then have q0: "q0 = []" by simp
  have k: "key_at (root_key s) [] = Some (root_key s)"
    by simp
  show ?case
    using check_notify_node_at [OF k, of "c AND NOT REG_NOTIFY_CHANGE_LAST_SET" False]
    by (auto simp add: q0 notify_parents_Some parent_def notify_at_def notified_def fired_def
        check_notify_list_eq)
next
  case (Suc n)
  then have ne: "q0 \<noteq> []" by auto
  obtain k where k: "key_at (root_key s) q0 = Some k"
    using Suc.prems by auto
  let ?c = "c AND NOT REG_NOTIFY_CHANGE_LAST_SET"
  let ?s1 = "check_notify q0 ?c False s"
  have step: "notify_parents (Some q0) c s = notify_parents (Some (butlast q0)) c ?s1"
    using ne by (simp add: notify_parents_Some parent_def)
  have n1: "notify_at (root_key ?s1) q =
      (if q = q0 then notified ?c False (notify_at (root_key s) q) else notify_at (root_key s) q)" for q
    using check_notify_node_at(1) [OF k, of ?c False q] key_at_node_at [OF k]
    by (auto simp add: notify_at_def notified_def check_notify_list_eq)
  have ex1: "\<forall>r \<in> set (butlast q0 # ancestors (butlast q0)). key_at (root_key ?s1) r \<noteq> None"
  proof
    fix r assume r: "r \<in> set (butlast q0 # ancestors (butlast q0))"
    then have "r \<in> set (ancestors q0)" using ne by (simp add: ancestors_nonempty)
    then have "key_at (root_key s) r \<noteq> None" and "r \<noteq> q0"
      using Suc.prems ancestors_shorter [of r q0] by auto
    then show "key_at (root_key ?s1) r \<noteq> None"
      using check_notify_node_at(1) [OF k, of ?c False r]
      by (auto simp add: node_at_def)
  qed
  have len: "n = length (butlast q0)" using Suc.hyps(2) by simp
  note IH = Suc.hyps(1) [OF len ex1]
  have lb: "length (butlast q0) < length q0"
    using ne by simp
  have nb: "q0 \<noteq> butlast q0"
  proof
    assume "q0 = butlast q0"
    then have "length q0 = length (butlast q0)" by simp
    then show False using lb by simp
  qed
  have notin: "q0 \<notin> set (butlast q0 # ancestors (butlast q0))"
    using ancestors_shorter [of q0 "butlast q0"] lb nb by auto
  have same: "q \<in> set (butlast q0 # ancestors (butlast q0)) \<Longrightarrow>
      notify_at (root_key ?s1) q = notify_at (root_key s) q" for q
    using n1 [of q] notin by auto
  show ?case
  proof (intro conjI allI)
    fix q
    show "notify_at (root_key (notify_parents (Some q0) c s)) q =
           (if q \<in> set (q0 # ancestors q0)
            then notified ?c False (notify_at (root_key s) q)
            else notify_at (root_key s) q)"
      using IH n1 [of q] notin same [of q] ne
      by (auto simp add: step ancestors_nonempty)
  next
    have "concat (map (\<lambda>q. fired ?c False (notify_at (root_key ?s1) q))
              (butlast q0 # ancestors (butlast q0)))
        = concat (map (\<lambda>q. fired ?c False (notify_at (root_key s) q))
              (butlast q0 # ancestors (butlast q0)))"
      using same by (intro arg_cong [where f = concat] map_cong) auto
    then show "signalled (notify_parents (Some q0) c s) =
           signalled s @
           concat (map (\<lambda>q. fired ?c False (notify_at (root_key s) q)) (q0 # ancestors q0))"
      using IH check_notify_node_at(2) [OF k, of ?c False] key_at_node_at [OF k] ne
      by (simp add: step ancestors_nonempty [OF ne] fired_def check_notify_list_eq notify_at_def)
  qed
qed


lemma ancestors_set: "set (ancestors p) = {q. \<exists>r. r \<noteq> [] \<and> p = q @ r}"
proof
  show "set (ancestors p) \<subseteq> {q. \<exists>r. r \<noteq> [] \<and> p = q @ r}"
    using ancestors_prefix by blast
next
  show "{q. \<exists>r. r \<noteq> [] \<and> p = q @ r} \<subseteq> set (ancestors p)"
  proof
    fix q assume "q \<in> {q. \<exists>r. r \<noteq> [] \<and> p = q @ r}"
    then obtain r where r: "r \<noteq> []" "p = q @ r" by blast
    then show "q \<in> set (ancestors p)"
    proof (induction r arbitrary: p rule: rev_induct)
      case Nil
      then show ?case by simp
    next
      case (snoc x xs)
      then have b: "butlast p = q @ xs" and ne: "p \<noteq> []"
        by (simp_all add: butlast_append)
      show ?case
      proof (cases "xs = []")
        case True
        then show ?thesis using b ne by (simp add: ancestors_nonempty)
      next
        case False
        then have "q \<in> set (ancestors (butlast p))"
          using snoc.IH [of "butlast p"] b by simp
        then show ?thesis using ne by (simp add: ancestors_nonempty)
      qed
    qed
  qed
qed

lemma notify_at_same:
  "map_option notify_list (node_at r' q) = map_option notify_list (node_at r q)
   \<Longrightarrow> notify_at r' q = notify_at r q"
  by (cases "node_at r' q"; cases "node_at r q") (auto simp: notify_at_def)

lemma touch_key_prepare:
  assumes "key_at (root_key s) p = Some m"
  defines "s2 \<equiv> s\<lparr>root_key := make_dirty p
      (update_key (update_node (\<lambda>n. n\<lparr>modif := current_time s\<rparr>)) p (root_key s))\<rparr>"
  shows "map_option notify_list (node_at (root_key s2) q)
           = map_option notify_list (node_at (root_key s) q)"
    and "signalled s2 = signalled s"
proof -
  have "map_option notify_list
      (node_at (update_key (update_node (\<lambda>n. n\<lparr>modif := current_time s\<rparr>)) p (root_key s)) q)
      = map_option notify_list (node_at (root_key s) q)"
    using node_at_update [OF assms(1), of "\<lambda>n. n\<lparr>modif := current_time s\<rparr>" q]
      key_at_node_at [OF assms(1)] by auto
  then show "map_option notify_list (node_at (root_key s2) q)
           = map_option notify_list (node_at (root_key s) q)"
    by (simp add: s2_def make_dirty_notify)
  show "signalled s2 = signalled s"
    by (simp add: s2_def)
qed

lemma memicmpW_sign:
  "((let r = memicmpW lw a b (min (length a) (length b))
     in if r = 0 then int (2 * length a) - int (2 * length b) else r) < 0
      \<longleftrightarrow> lower_name lw a < lower_name lw b) \<and>
   ((let r = memicmpW lw a b (min (length a) (length b))
     in if r = 0 then int (2 * length a) - int (2 * length b) else r) = 0
      \<longleftrightarrow> lower_name lw a = lower_name lw b)"
proof (induction a arbitrary: b)
  case Nil
  then show ?case by (cases b) (simp_all add: lower_name_def)
next
  case (Cons x xs)
  show ?case
  proof (cases b)
    case Nil
    then show ?thesis by (simp add: lower_name_def)
  next
    case (Cons y ys)
    have m: "min (length (x # xs)) (length (y # ys)) = Suc (min (length xs) (length ys))"
      by simp
    have l: "lower_name lw (x # xs) = unat (lw x) # lower_name lw xs"
      "lower_name lw (y # ys) = unat (lw y) # lower_name lw ys"
      by (simp_all add: lower_name_def)
    have d: "int (2 * length (x # xs)) - int (2 * length (y # ys))
        = int (2 * length xs) - int (2 * length ys)"
      by simp
    define D where "D = int (unat (lw x)) - int (unat (lw y))"
    define R where "R = memicmpW lw xs ys (min (length xs) (length ys))"
    have r: "memicmpW lw (x # xs) (y # ys) (Suc (min (length xs) (length ys)))
        = (if D \<noteq> 0 then D else R)"
      unfolding D_def R_def by (simp only: memicmpW.simps Let_def)
    have ih: "((if R = 0 then int (2 * length xs) - int (2 * length ys) else R) < 0
          \<longleftrightarrow> lower_name lw xs < lower_name lw ys) \<and>
        ((if R = 0 then int (2 * length xs) - int (2 * length ys) else R) = 0
          \<longleftrightarrow> lower_name lw xs = lower_name lw ys)"
      using Cons.IH [of ys] unfolding R_def Let_def .
    consider (lt) "unat (lw x) < unat (lw y)" | (eq) "unat (lw x) = unat (lw y)"
      | (gt) "unat (lw y) < unat (lw x)"
      by linarith
    then show ?thesis
    proof cases
      case lt
      then have "D < 0" unfolding D_def by linarith
      then show ?thesis
        unfolding Cons m l r Let_def using lt by simp
    next
      case eq
      then have "D = 0" unfolding D_def by linarith
      then show ?thesis
        unfolding Cons m l d r Let_def using eq ih by (cases "R = 0") simp_all
    next
      case gt
      then have "D > 0" unfolding D_def by linarith
      then show ?thesis
        unfolding Cons m l r Let_def using gt by simp
    qed
  qed
qed

lemma value_name_cmp_sign:
  "(value_name_cmp lw v name < 0 \<longleftrightarrow> lower_name lw (vname v) < lower_name lw name) \<and>
   (value_name_cmp lw v name = 0 \<longleftrightarrow> lower_name lw (vname v) = lower_name lw name)"
proof -
  have m: "min (2 * length (vname v)) (2 * length name) div 2 = min (length (vname v)) (length name)"
    by (simp add: min_def)
  show ?thesis
    using memicmpW_sign [of lw "vname v" name]
    unfolding value_name_cmp_def namelen_def Let_def m by simp
qed

lemma value_name_cmp_less: "value_name_cmp lw v name < 0 \<longleftrightarrow> lower_name lw (vname v) < lower_name lw name"
  using value_name_cmp_sign by blast

lemma value_name_cmp_eq: "value_name_cmp lw v name = 0 \<longleftrightarrow> lower_name lw (vname v) = lower_name lw name"
  using value_name_cmp_sign by blast

lemma value_name_cmp_greater: "value_name_cmp lw v name > 0 \<longleftrightarrow> lower_name lw name < lower_name lw (vname v)"
  using value_name_cmp_sign [of lw v name] by force

lemma values_sorted_names:
  "values_sorted lw vals = sorted_wrt (<) (map (\<lambda>v. lower_name lw (vname v)) vals)"
  by (simp add: values_sorted_def sorted_wrt_map value_name_cmp_less)

declare find_value_loop.simps [simp del]

lemma find_value_loop_Some:
  "find_value_loop lw vals name mn mx = (Some v, i) \<Longrightarrow> 0 \<le> mn \<Longrightarrow> mx < int (length vals)
   \<Longrightarrow> i < length vals \<and> v = vals ! i \<and> value_name_cmp lw v name = 0"
proof (induction lw vals name mn mx rule: find_value_loop.induct)
  case (1 lw vals name mn mx)
  let ?m = "(mn + mx) div 2"
  show ?case
  proof (cases "mn \<le> mx")
    case False
    then show ?thesis using "1.prems"(1) by (subst (asm) find_value_loop.simps) simp
  next
    case True
    have mb: "mn \<le> ?m" "?m \<le> mx" using True by linarith+
    show ?thesis
    proof (cases "value_name_cmp lw (vals ! nat ?m) name = 0")
      case z: True
      have "find_value_loop lw vals name mn mx = (Some (vals ! nat ?m), nat ?m)"
        using True z by (subst find_value_loop.simps) simp
      then show ?thesis using "1.prems" z mb by auto
    next
      case nz: False
      show ?thesis
      proof (cases "value_name_cmp lw (vals ! nat ?m) name > 0")
        case g: True
        have "find_value_loop lw vals name mn mx = find_value_loop lw vals name mn (?m - 1)"
          using True nz g by (subst find_value_loop.simps) simp
        then have e: "find_value_loop lw vals name mn (?m - 1) = (Some v, i)"
          using "1.prems"(1) by simp
        have b: "?m - 1 < int (length vals)"
          using mb "1.prems"(3) by linarith
        show ?thesis
          by (rule "1.IH"(1) [OF True nz g e "1.prems"(2) b])
      next
        case l: False
        have "find_value_loop lw vals name mn mx = find_value_loop lw vals name (?m + 1) mx"
          using True nz l by (subst find_value_loop.simps) simp
        then have e: "find_value_loop lw vals name (?m + 1) mx = (Some v, i)"
          using "1.prems"(1) by simp
        have b: "0 \<le> ?m + 1"
          using mb "1.prems"(2) by linarith
        show ?thesis
          by (rule "1.IH"(2) [OF True nz l e b "1.prems"(3)])
      qed
    qed
  qed
qed

lemma find_value_loop_None:
  "find_value_loop lw vals name mn mx = (None, i) \<Longrightarrow> values_sorted lw vals
   \<Longrightarrow> 0 \<le> mn \<Longrightarrow> mx < int (length vals) \<Longrightarrow> mn \<le> mx + 1
   \<Longrightarrow> (\<forall>j < nat mn. lower_name lw (vname (vals ! j)) < lower_name lw name)
   \<Longrightarrow> (\<forall>j. nat (mx + 1) \<le> j \<and> j < length vals \<longrightarrow> lower_name lw name < lower_name lw (vname (vals ! j)))
   \<Longrightarrow> i \<le> length vals \<and> (\<forall>j < i. lower_name lw (vname (vals ! j)) < lower_name lw name)
       \<and> (\<forall>j. i \<le> j \<and> j < length vals \<longrightarrow> lower_name lw name < lower_name lw (vname (vals ! j)))"
proof (induction lw vals name mn mx rule: find_value_loop.induct)
  case (1 lw vals name mn mx)
  let ?m = "(mn + mx) div 2"
  note srt = "1.prems"(2)
  have mono: "lower_name lw (vname (vals ! a)) < lower_name lw (vname (vals ! b))"
    if "a < b" "b < length vals" for a b
    using srt that unfolding values_sorted_names
    by (simp add: sorted_wrt_iff_nth_less)
  show ?case
  proof (cases "mn \<le> mx")
    case False
    then have "i = nat mn" "mn = mx + 1"
      using "1.prems"(1,5) by (subst (asm) find_value_loop.simps, simp)+
    then show ?thesis using "1.prems" by auto
  next
    case True
    have mb: "mn \<le> ?m" "?m \<le> mx" using True by linarith+
    have ml: "nat ?m < length vals" using mb "1.prems"(3,4) by linarith
    show ?thesis
    proof (cases "value_name_cmp lw (vals ! nat ?m) name = 0")
      case z: True
      have "find_value_loop lw vals name mn mx = (Some (vals ! nat ?m), nat ?m)"
        using True z by (subst find_value_loop.simps) simp
      then show ?thesis using "1.prems"(1) by simp
    next
      case nz: False
      show ?thesis
      proof (cases "value_name_cmp lw (vals ! nat ?m) name > 0")
        case g: True
        have e: "find_value_loop lw vals name mn (?m - 1) = (None, i)"
          using True nz g "1.prems"(1) by (subst (asm) find_value_loop.simps) simp
        have gm: "lower_name lw name < lower_name lw (vname (vals ! nat ?m))"
          using g by (simp add: value_name_cmp_greater)
        have up: "\<forall>j. nat (?m - 1 + 1) \<le> j \<and> j < length vals \<longrightarrow>
            lower_name lw name < lower_name lw (vname (vals ! j))"
        proof (intro allI impI)
          fix j assume j: "nat (?m - 1 + 1) \<le> j \<and> j < length vals"
          show "lower_name lw name < lower_name lw (vname (vals ! j))"
          proof (cases "j = nat ?m")
            case True
            then show ?thesis using gm by simp
          next
            case False
            then have "nat ?m < j" using j by simp
            then show ?thesis using mono [of "nat ?m" j] j gm by (meson less_trans)
          qed
        qed
        show ?thesis
          using "1.IH"(1) [OF True nz g e srt "1.prems"(3) _ _ "1.prems"(6) up] mb "1.prems"(4)
          by simp
      next
        case l: False
        have e: "find_value_loop lw vals name (?m + 1) mx = (None, i)"
          using True nz l "1.prems"(1) by (subst (asm) find_value_loop.simps) simp
        have lm: "lower_name lw (vname (vals ! nat ?m)) < lower_name lw name"
          using l nz value_name_cmp_sign [of lw "vals ! nat ?m" name] by force
        have lo: "\<forall>j < nat (?m + 1). lower_name lw (vname (vals ! j)) < lower_name lw name"
        proof (intro allI impI)
          fix j assume j: "j < nat (?m + 1)"
          show "lower_name lw (vname (vals ! j)) < lower_name lw name"
          proof (cases "j = nat ?m")
            case True
            then show ?thesis using lm by simp
          next
            case False
            then have "j < nat ?m" using j mb "1.prems"(3) by linarith
            then show ?thesis using mono [of j "nat ?m"] ml lm by (meson less_trans)
          qed
        qed
        show ?thesis
          using "1.IH"(2) [OF True nz l e srt _ "1.prems"(4) _ lo "1.prems"(7)] mb "1.prems"(3)
          by simp
      qed
    qed
  qed
qed

lemma find_value_Some:
  assumes "find_value lw k name = (Some v, i)"
  shows "i < length (key_values (node k)) \<and> v = key_values (node k) ! i \<and>
         lower_name lw (vname v) = lower_name lw name"
proof -
  have f: "find_value_loop lw (key_values (node k)) name 0
      (int (length (key_values (node k))) - 1) = (Some v, i)"
    using assms by (simp only: find_value_def)
  have b: "int (length (key_values (node k))) - 1 < int (length (key_values (node k)))"
    by simp
  have "i < length (key_values (node k)) \<and> v = key_values (node k) ! i \<and>
      value_name_cmp lw v name = 0"
    by (rule find_value_loop_Some [OF f order_refl b])
  then show ?thesis
    by (metis value_name_cmp_eq)
qed

lemma find_value_None:
  assumes "find_value lw k name = (None, i)" and "values_sorted lw (key_values (node k))"
  shows "i \<le> length (key_values (node k)) \<and>
         (\<forall>j < i. lower_name lw (vname (key_values (node k) ! j)) < lower_name lw name) \<and>
         (\<forall>j. i \<le> j \<and> j < length (key_values (node k)) \<longrightarrow>
              lower_name lw name < lower_name lw (vname (key_values (node k) ! j)))"
proof -
  let ?vals = "key_values (node k)"
  have f: "find_value_loop lw ?vals name 0 (int (length ?vals) - 1) = (None, i)"
    using assms(1) by (simp only: find_value_def)
  have b: "int (length ?vals) - 1 < int (length ?vals)" "(0 :: int) \<le> int (length ?vals) - 1 + 1"
    by simp_all
  have lo: "\<forall>j < nat 0. lower_name lw (vname (?vals ! j)) < lower_name lw name"
    by simp
  have hi: "\<forall>j. nat (int (length ?vals) - 1 + 1) \<le> j \<and> j < length ?vals \<longrightarrow>
      lower_name lw name < lower_name lw (vname (?vals ! j))"
    by auto
  show ?thesis
    by (rule find_value_loop_None [OF f assms(2) order_refl b lo hi])
qed

lemma find_value_stored:
  assumes srt: "values_sorted lw (key_values (node k))"
    and v: "v \<in> set (key_values (node k))"
    and n: "lower_name lw (vname v) = lower_name lw name"
  shows "\<exists>i. find_value lw k name = (Some v, i)"
proof -
  let ?vals = "key_values (node k)"
  obtain j where j: "j < length ?vals" "?vals ! j = v"
    using v by (auto simp add: in_set_conv_nth)
  obtain r i where f: "find_value lw k name = (r, i)"
    by (cases "find_value lw k name")
  show ?thesis
  proof (cases r)
    case None
    have fn: "(\<forall>j < i. lower_name lw (vname (?vals ! j)) < lower_name lw name) \<and>
        (\<forall>j. i \<le> j \<and> j < length ?vals \<longrightarrow>
             lower_name lw name < lower_name lw (vname (?vals ! j)))"
      using find_value_None [OF f [unfolded None] srt] by blast
    have "lower_name lw (vname (?vals ! j)) \<noteq> lower_name lw name"
    proof (cases "j < i")
      case True
      then have "lower_name lw (vname (?vals ! j)) < lower_name lw name"
        using fn by blast
      then show ?thesis by simp
    next
      case False
      then have "lower_name lw name < lower_name lw (vname (?vals ! j))"
        using fn j(1) by (simp add: not_less)
      then show ?thesis by simp
    qed
    then show ?thesis using j n by simp
  next
    case (Some w)
    have w: "i < length ?vals" "w = ?vals ! i" "lower_name lw (vname w) = lower_name lw name"
      using find_value_Some [OF f [unfolded Some]] by blast+
    have mono: "lower_name lw (vname (?vals ! a)) < lower_name lw (vname (?vals ! b))"
      if "a < b" "b < length ?vals" for a b
      using srt that unfolding values_sorted_names by (simp add: sorted_wrt_iff_nth_less)
    have "i = j"
    proof (rule ccontr)
      assume "i \<noteq> j"
      then consider "i < j" | "j < i" by linarith
      then show False
      proof cases
        case 1
        then show ?thesis using mono [of i j] j w n by simp
      next
        case 2
        then show ?thesis using mono [of j i] j w n by simp
      qed
    qed
    then show ?thesis using f Some w j by simp
  qed
qed

lemma values_sorted_insert:
  assumes srt: "values_sorted lw vals" and i: "i \<le> length vals"
    and lo: "\<forall>j < i. lower_name lw (vname (vals ! j)) < lower_name lw (vname v)"
    and hi: "\<forall>j. i \<le> j \<and> j < length vals \<longrightarrow>
               lower_name lw (vname v) < lower_name lw (vname (vals ! j))"
  shows "values_sorted lw (take i vals @ v # drop i vals)"
proof -
  let ?f = "\<lambda>v. lower_name lw (vname v)"
  have s: "sorted_wrt (<) (map ?f vals)"
    using srt by (simp add: values_sorted_names)
  have t: "?f a < ?f v" if a: "a \<in> set (take i vals)" for a
  proof -
    obtain j where "j < i" "j < length vals" "vals ! j = a"
      using a by (auto simp add: in_set_conv_nth)
    then show ?thesis using lo by auto
  qed
  have d: "?f v < ?f b" if b: "b \<in> set (drop i vals)" for b
  proof -
    obtain j where j: "j < length (drop i vals)" "drop i vals ! j = b"
      using b by (meson in_set_conv_nth)
    have l: "i + j < length vals"
      using j(1) by simp
    have "vals ! (i + j) = b"
      using j(2) l by simp
    then show ?thesis using hi [rule_format, of "i + j"] l by auto
  qed
  have st: "sorted_wrt (<) (map ?f (take i vals))"
    using s by (simp add: take_map [symmetric] sorted_wrt_take)
  have sd: "sorted_wrt (<) (map ?f (drop i vals))"
    using s by (simp add: drop_map [symmetric] sorted_wrt_drop)
  have "sorted_wrt (<) (map ?f (take i vals) @ ?f v # map ?f (drop i vals))"
    unfolding sorted_wrt_append using st sd t d by (auto intro: less_trans)
  then show ?thesis
    by (simp add: values_sorted_names)
qed

lemma values_sorted_update:
  assumes "values_sorted lw vals" and "vname v = vname (vals ! i)"
  shows "values_sorted lw (vals[i := v])"
proof -
  have "map (\<lambda>v. lower_name lw (vname v)) (vals[i := v]) = map (\<lambda>v. lower_name lw (vname v)) vals"
  proof (cases "i < length vals")
    case True
    then show ?thesis using assms(2) by (simp add: map_update list_update_same_conv)
  next
    case False
    then have "vals[i := v] = vals" by (intro list_update_beyond) simp
    then show ?thesis by simp
  qed
  then show ?thesis using assms(1) by (simp add: values_sorted_names)
qed

lemma update_key_missing: "key_at root p = None \<Longrightarrow> update_key f p root = root"
  by (induction p arbitrary: root) (auto split: if_splits)

lemma key_at_update_same:
  "key_at root p = Some k \<Longrightarrow> key_at (update_key f p root) p = Some (f k)"
  by (induction p arbitrary: root) (auto split: if_splits)

lemma update_key_twice: "update_key f p (update_key g p root) = update_key (\<lambda>k. f (g k)) p root"
  by (induction p arbitrary: root) auto

lemma update_node_frame:
  assumes "\<And>n. g (f n) = g n"
  shows "map_option g (node_at (update_key (update_node f) p root) q) = map_option g (node_at root q)"
proof (cases "key_at root p")
  case None
  then show ?thesis by (simp add: update_key_missing)
next
  case (Some k)
  show ?thesis
    using node_at_update [OF Some, of f q] key_at_node_at [OF Some] assms by auto
qed

lemma make_dirty_node_frame:
  assumes g: "\<And>n x. g (n\<lparr>flags := x\<rparr>) = g n"
  shows "map_option g (node_at (make_dirty p root) q) = map_option g (node_at root q)"
proof (induction p root rule: make_dirty.induct)
  case (1 p root)
  show ?case
  proof (cases "key_at root p")
    case None
    then show ?thesis by (subst make_dirty.simps) simp
  next
    case (Some k)
    let ?root' = "update_key (update_node (\<lambda>n. n\<lparr>flags := flags n OR KEY_DIRTY\<rparr>)) p root"
    have u: "map_option g (node_at ?root' q) = map_option g (node_at root q)"
      by (rule update_node_frame) (rule g)
    show ?thesis
    proof (cases "key_flags k AND (KEY_DIRTY OR KEY_VOLATILE) \<noteq> 0")
      case True
      then show ?thesis using Some by (subst make_dirty.simps) simp
    next
      case False
      show ?thesis
      proof (cases "p = []")
        case True
        then show ?thesis using Some False u by (subst make_dirty.simps) (simp add: Let_def)
      next
        case np: False
        have "map_option g (node_at (make_dirty (butlast p) ?root') q)
            = map_option g (node_at ?root' q)"
          using "1.IH" [OF Some _ _ np, of ?root'] False by simp
        then show ?thesis
          using Some False np u by (subst make_dirty.simps) (simp add: Let_def)
      qed
    qed
  qed
qed

lemma check_notify_node_frame:
  assumes g: "\<And>n x. g (n\<lparr>notify_list := x\<rparr>) = g n"
  shows "map_option g (node_at (root_key (check_notify p c b s)) q)
           = map_option g (node_at (root_key s) q)"
proof (cases "key_at (root_key s) p")
  case None
  then show ?thesis by (simp add: check_notify_missing)
next
  case (Some k)
  obtain ns es where c: "check_notify_list (notify_list (node k)) c b = (ns, es)"
    by (cases "check_notify_list (notify_list (node k)) c b")
  have "root_key (check_notify p c b s)
      = update_key (update_node (\<lambda>n. n\<lparr>notify_list := ns\<rparr>)) p (root_key s)"
    using Some c by (simp add: check_notify_def)
  then show ?thesis
    using update_node_frame [of g "\<lambda>n. n\<lparr>notify_list := ns\<rparr>" p "root_key s" q] g by simp
qed

lemma notify_parents_node_frame:
  assumes g: "\<And>n x. g (n\<lparr>notify_list := x\<rparr>) = g n"
  shows "map_option g (node_at (root_key (notify_parents r c s)) q)
           = map_option g (node_at (root_key s) q)"
proof (induction r c s rule: notify_parents.induct)
  case (1 c s)
  then show ?case by simp
next
  case (2 p c s)
  show ?case
    using "2.IH" check_notify_node_frame [of g p "c AND NOT REG_NOTIFY_CHANGE_LAST_SET" False s q, OF g]
    by (subst notify_parents.simps(2)) simp
qed

lemma touch_key_node_frame:
  assumes g1: "\<And>n x. g (n\<lparr>notify_list := x\<rparr>) = g n"
    and g2: "\<And>n x. g (n\<lparr>flags := x\<rparr>) = g n"
    and g3: "\<And>n x. g (n\<lparr>modif := x\<rparr>) = g n"
  shows "map_option g (node_at (root_key (touch_key p c s)) q)
           = map_option g (node_at (root_key s) q)"
proof -
  let ?r1 = "update_key (update_node (\<lambda>n. n\<lparr>modif := current_time s\<rparr>)) p (root_key s)"
  have a: "map_option g (node_at ?r1 q) = map_option g (node_at (root_key s) q)"
    by (rule update_node_frame) (rule g3)
  have b: "map_option g (node_at (make_dirty p ?r1) q) = map_option g (node_at ?r1 q)"
    by (rule make_dirty_node_frame) (rule g2)
  show ?thesis
    unfolding touch_key_def Let_def
    by (simp add: notify_parents_node_frame [of g, OF g1] check_notify_node_frame [of g, OF g1] a b)
qed

lemma touch_key_values:
  assumes "key_at (root_key s) p = Some k"
  shows "\<exists>k1. key_at (root_key (touch_key p c s)) p = Some k1 \<and>
              key_values (node k1) = key_values (node k)"
proof -
  have "map_option key_values (node_at (root_key (touch_key p c s)) p)
      = Some (key_values (node k))"
    using touch_key_node_frame [of key_values p c s p] key_at_node_at [OF assms] by simp
  then obtain n where "node_at (root_key (touch_key p c s)) p = Some n"
    "key_values n = key_values (node k)"
    by auto
  then show ?thesis
    using node_at_key_at by blast
qed

lemma insert_value_Some:
  assumes "insert_value al n name index = (Some e, n')"
  shows "e \<noteq> STATUS_SUCCESS" and "key_values n' = key_values n" and "flags n' = flags n"
    and "insert_value al n' name index = (Some e, n')"
  using assms
  by (auto simp add: insert_value_def grow_values_def MIN_VALUES_def
      split: if_splits sum.splits)

lemma update_node_const: "update_node (\<lambda>_. n) (update_node (\<lambda>_. n) k) = update_node (\<lambda>_. n) k"
  by (simp add: update_node_def)

lemma insert_value_None:
  assumes "insert_value al n name index = (None, n')"
  shows "key_values n' = take index (key_values n) @
           \<lparr>vname = name,
            vtype = (if index < length (key_values n) then vtype (key_values n ! index)
                     else slot_type al),
            vdata = None\<rparr> # drop index (key_values n)"
  using assms
  by (auto simp add: insert_value_def grow_values_def split: if_splits sum.splits)

lemma set_value_outcome:
  assumes k: "key_at (root_key s) p = Some k"
    and srt: "values_sorted lw (key_values (node k))"
  shows "(set_value lw al p name type data s = s \<and>
            has_value lw (key_values (node k)) name type (Some data))
       \<or> (error (set_value lw al p name type data s) \<noteq> STATUS_SUCCESS \<and>
           (\<forall>t'. set_value lw al p name type data
                    ((set_value lw al p name type data s)\<lparr>current_time := t'\<rparr>)
                  = (set_value lw al p name type data s)\<lparr>current_time := t'\<rparr>))
       \<or> (\<exists>n1. set_value lw al p name type data s
                  = touch_key p REG_NOTIFY_CHANGE_LAST_SET
                      (s\<lparr>root_key := update_key (update_node (\<lambda>_. n1)) p (root_key s)\<rparr>) \<and>
               values_sorted lw (key_values n1) \<and>
               has_value lw (key_values n1) name type (if data = [] then None else Some data))"
proof -
  let ?vals = "key_values (node k)"
  let ?ptr = "if data = [] then None else Some data"
  let ?deny = "key_flags k AND KEY_SYMLINK \<noteq> 0 \<and>
      (type \<noteq> REG_LINK \<or> 2 * length name \<noteq> 2 * length symlink_value \<or>
       memicmpW lw name symlink_value (2 * length name div 2) \<noteq> 0)"
  obtain val index where f: "find_value lw k name = (val, index)"
    by (cases "find_value lw k name")
  show ?thesis
  proof (cases val)
    case None
    note f = f [unfolded None]
    have fn: "index \<le> length ?vals"
      "\<forall>j < index. lower_name lw (vname (?vals ! j)) < lower_name lw name"
      "\<forall>j. index \<le> j \<and> j < length ?vals \<longrightarrow>
           lower_name lw name < lower_name lw (vname (?vals ! j))"
      using find_value_None [OF f srt] by blast+
    show ?thesis
    proof (cases "?deny")
      case True
      then have a: "set_value lw al p name type data s = s\<lparr>error := STATUS_ACCESS_DENIED\<rparr>"
        using k f by (auto simp add: set_value_def)
      have "set_value lw al p name type data (s\<lparr>error := STATUS_ACCESS_DENIED, current_time := t'\<rparr>)
          = s\<lparr>error := STATUS_ACCESS_DENIED, current_time := t'\<rparr>" for t'
        using True k f by (auto simp add: set_value_def)
      then show ?thesis using a by simp
    next
      case nd: False
      show ?thesis
      proof (cases "data \<noteq> [] \<and> \<not> data_alloc al")
        case True
        then have a: "set_value lw al p name type data s = s\<lparr>error := STATUS_NO_MEMORY\<rparr>"
          using k f nd by (auto simp add: set_value_def)
        have "set_value lw al p name type data (s\<lparr>error := STATUS_NO_MEMORY, current_time := t'\<rparr>)
            = s\<lparr>error := STATUS_NO_MEMORY, current_time := t'\<rparr>" for t'
          using True k f nd by (auto simp add: set_value_def)
        then show ?thesis using a by simp
      next
        case mem: False
        obtain r n where iv: "insert_value al (node k) name index = (r, n)"
          by (cases "insert_value al (node k) name index")
        show ?thesis
        proof (cases r)
          case (Some e)
          note iv = iv [unfolded Some]
          let ?R1 = "update_key (update_node (\<lambda>_. n)) p (root_key s)"
          have a: "set_value lw al p name type data s = s\<lparr>root_key := ?R1, error := e\<rparr>"
            using k f nd mem iv by (auto simp add: set_value_def)
          have k': "key_at ?R1 p = Some (update_node (\<lambda>_. n) k)"
            by (rule key_at_update_same [OF k])
          have nk: "node (update_node (\<lambda>_. n) k) = n"
            by (simp add: update_node_def)
          have f': "find_value lw (update_node (\<lambda>_. n) k) name = (None, index)"
            using f insert_value_Some(2) [OF iv] by (simp add: find_value_def nk)
          have fl: "key_flags (update_node (\<lambda>_. n) k) = key_flags k"
            using insert_value_Some(3) [OF iv] by (simp add: key_flags_def nk)
          have again: "update_key (update_node (\<lambda>_. n)) p ?R1 = ?R1"
            by (simp add: update_key_twice update_node_const)
          have "set_value lw al p name type data (s\<lparr>root_key := ?R1, error := e, current_time := t'\<rparr>)
              = s\<lparr>root_key := ?R1, error := e, current_time := t'\<rparr>" for t'
            using k' f' fl nd mem insert_value_Some(4) [OF iv] again
            by (auto simp add: set_value_def nk)
          then show ?thesis
            using a insert_value_Some(1) [OF iv] by simp
        next
          case r: None
          let ?new = "\<lparr>vname = name,
              vtype = (if index < length ?vals then vtype (?vals ! index) else slot_type al),
              vdata = None\<rparr>"
          let ?new' = "\<lparr>vname = name, vtype = type, vdata = ?ptr\<rparr>"
          have kv: "key_values n = take index ?vals @ ?new # drop index ?vals"
            using insert_value_None [OF iv [unfolded r]] .
          have l: "length (take index ?vals) = index"
            using fn(1) by simp
          have upd: "(key_values n)[index := (key_values n ! index)\<lparr>vtype := type, vdata := ?ptr\<rparr>]
              = take index ?vals @ ?new' # drop index ?vals"
            unfolding kv using l by (simp add: list_update_append nth_append)
          let ?n1 = "n\<lparr>key_values := take index ?vals @ ?new' # drop index ?vals\<rparr>"
          have sv: "set_value lw al p name type data s
              = touch_key p REG_NOTIFY_CHANGE_LAST_SET
                  (s\<lparr>root_key := update_key (update_node (\<lambda>_. ?n1)) p (root_key s)\<rparr>)"
            using k f nd mem iv r upd by (auto simp add: set_value_def Let_def)
          have s1: "values_sorted lw (key_values ?n1)"
            using values_sorted_insert [OF srt fn(1), of ?new'] fn(2,3) by simp
          have s2: "has_value lw (key_values ?n1) name type ?ptr"
            unfolding has_value_def by (rule bexI [of _ ?new']) simp_all
          show ?thesis
            using sv s1 s2 by blast
        qed
      qed
    qed
  next
    case (Some v)
    note f = f [unfolded Some]
    have fs: "index < length ?vals" "v = ?vals ! index"
      "lower_name lw (vname v) = lower_name lw name"
      using find_value_Some [OF f] by blast+
    show ?thesis
    proof (cases "vtype v = type \<and> vlen v = length data \<and>
        (case vdata v of None \<Rightarrow> False | Some d \<Rightarrow> d = data)")
      case True
      then have a: "set_value lw al p name type data s = s"
        using k f by (auto simp add: set_value_def)
      have "vdata v = Some data"
        using True by (cases "vdata v") simp_all
      then have "has_value lw ?vals name type (Some data)"
        unfolding has_value_def using fs True by (intro bexI [of _ v]) simp_all
      then show ?thesis using a by simp
    next
      case ns: False
      show ?thesis
      proof (cases "?deny")
        case True
        then have a: "set_value lw al p name type data s = s\<lparr>error := STATUS_ACCESS_DENIED\<rparr>"
          using k f ns by (auto simp add: set_value_def)
        have "set_value lw al p name type data (s\<lparr>error := STATUS_ACCESS_DENIED, current_time := t'\<rparr>)
            = s\<lparr>error := STATUS_ACCESS_DENIED, current_time := t'\<rparr>" for t'
          using True k f ns by (auto simp add: set_value_def)
        then show ?thesis using a by simp
      next
        case nd: False
        show ?thesis
        proof (cases "data \<noteq> [] \<and> \<not> data_alloc al")
          case True
          then have a: "set_value lw al p name type data s = s\<lparr>error := STATUS_NO_MEMORY\<rparr>"
            using k f ns nd by (auto simp add: set_value_def)
          have "set_value lw al p name type data (s\<lparr>error := STATUS_NO_MEMORY, current_time := t'\<rparr>)
              = s\<lparr>error := STATUS_NO_MEMORY, current_time := t'\<rparr>" for t'
            using True k f ns nd by (auto simp add: set_value_def)
          then show ?thesis using a by simp
        next
          case mem: False
          let ?v' = "v\<lparr>vtype := type, vdata := ?ptr\<rparr>"
          let ?n1 = "(node k)\<lparr>key_values := ?vals[index := ?v']\<rparr>"
          have sv: "set_value lw al p name type data s
              = touch_key p REG_NOTIFY_CHANGE_LAST_SET
                  (s\<lparr>root_key := update_key (update_node (\<lambda>_. ?n1)) p (root_key s)\<rparr>)"
            using k f ns nd mem fs(2) by (auto simp add: set_value_def Let_def)
          have s1: "values_sorted lw (key_values ?n1)"
            using values_sorted_update [OF srt, of ?v' index] fs(2) by simp
          have "?v' \<in> set (?vals[index := ?v'])"
            using fs(1) by (rule set_update_memI)
          then have s2: "has_value lw (key_values ?n1) name type ?ptr"
            unfolding has_value_def using fs(3) by (intro bexI [of _ ?v']) simp_all
          show ?thesis
            using sv s1 s2 by blast
        qed
      qed
    qed
  qed
qed

lemma set_value_has_value:
  assumes k: "key_at (root_key s) p = Some k"
    and srt: "values_sorted lw (key_values (node k))"
    and h: "has_value lw (key_values (node k)) name type (Some data)"
  shows "set_value lw al p name type data s = s"
proof -
  obtain v where v: "v \<in> set (key_values (node k))"
    "lower_name lw (vname v) = lower_name lw name" "vtype v = type" "vdata v = Some data"
    using h unfolding has_value_def by blast
  obtain i where f: "find_value lw k name = (Some v, i)"
    using find_value_stored [OF srt v(1,2)] by blast
  show ?thesis
    by (rule set_value_skip [OF k f v(3,4)])
qed

lemma touch_key_stored:
  assumes k: "key_at (root_key s) p = Some k"
  shows "\<exists>k1. key_at (root_key (touch_key p c
                 (s\<lparr>root_key := update_key (update_node (\<lambda>_. n1)) p (root_key s)\<rparr>))) p = Some k1 \<and>
              key_values (node k1) = key_values n1"
proof -
  let ?s = "s\<lparr>root_key := update_key (update_node (\<lambda>_. n1)) p (root_key s)\<rparr>"
  have "key_at (root_key ?s) p = Some (update_node (\<lambda>_. n1) k)"
    using key_at_update_same [OF k] by simp
  then show ?thesis
    using touch_key_values [of ?s p "update_node (\<lambda>_. n1) k" c]
    by (simp add: update_node_def)
qed

section \<open>Claims about \<open>set_value\<close>\<close>

text \<open>
  C4, as amended. The values of the key are sorted, as the search of \<open>find_value\<close> needs.
  First: if the key stores a value of the given name, with the given type and a stored
  payload equal to the given bytes, \<open>set_value\<close> changes nothing: the tree (values,
  modification time, dirty flags, subscriptions), the error slot and the list of signalled
  events are as before. Second, for a non-empty byte string: a second identical call,
  made at any later time, changes nothing. Third, for a non-empty byte string: after a
  call that leaves no error the key stores the value with the given type and bytes, its
  values are still sorted, and the second call changes nothing whatever the allocator
  answers.
\<close>

theorem set_value_identical_noop:
  assumes "key_at (root_key s) p = Some k"
    and "values_sorted tolowerW (key_values (node k))"
  shows "(has_value tolowerW (key_values (node k)) name type (Some data) \<longrightarrow>
            set_value tolowerW al p name type data s = s)
       \<and> (data \<noteq> [] \<longrightarrow>
            (\<forall>t'. set_value tolowerW al p name type data
                     ((set_value tolowerW al p name type data s)\<lparr>current_time := t'\<rparr>)
                   = (set_value tolowerW al p name type data s)\<lparr>current_time := t'\<rparr>))
       \<and> (data \<noteq> [] \<and> error (set_value tolowerW al p name type data s) = STATUS_SUCCESS \<longrightarrow>
            (\<exists>k1. key_at (root_key (set_value tolowerW al p name type data s)) p = Some k1 \<and>
                   values_sorted tolowerW (key_values (node k1)) \<and>
                   has_value tolowerW (key_values (node k1)) name type (Some data)) \<and>
            (\<forall>al' t'. set_value tolowerW al' p name type data
                         ((set_value tolowerW al p name type data s)\<lparr>current_time := t'\<rparr>)
                       = (set_value tolowerW al p name type data s)\<lparr>current_time := t'\<rparr>))"
proof -
  let ?s1 = "set_value tolowerW al p name type data s"
  have stored: "\<exists>k1. key_at (root_key ?s1) p = Some k1 \<and>
      values_sorted tolowerW (key_values (node k1)) \<and>
      has_value tolowerW (key_values (node k1)) name type (Some data)"
    if d: "data \<noteq> []" and e: "error ?s1 = STATUS_SUCCESS \<or> \<not> (\<forall>t'. set_value tolowerW al p name type data
                     (?s1\<lparr>current_time := t'\<rparr>) = ?s1\<lparr>current_time := t'\<rparr>)"
  proof -
    consider (skip) "?s1 = s" "has_value tolowerW (key_values (node k)) name type (Some data)"
      | (set) n1 where "?s1 = touch_key p REG_NOTIFY_CHANGE_LAST_SET
            (s\<lparr>root_key := update_key (update_node (\<lambda>_. n1)) p (root_key s)\<rparr>)"
          "values_sorted tolowerW (key_values n1)"
          "has_value tolowerW (key_values n1) name type (Some data)"
      using set_value_outcome [OF assms, of al name type data] d e by auto
    then show ?thesis
    proof cases
      case skip
      then show ?thesis using assms by simp
    next
      case (set n1)
      obtain k1 where "key_at (root_key ?s1) p = Some k1" "key_values (node k1) = key_values n1"
        using touch_key_stored [OF assms(1), of REG_NOTIFY_CHANGE_LAST_SET n1] set(1) by auto
      then show ?thesis using set(2,3) by simp
    qed
  qed
  have again: "set_value tolowerW al' p name type data (?s1\<lparr>current_time := t'\<rparr>)
      = ?s1\<lparr>current_time := t'\<rparr>"
    if d: "data \<noteq> []" and e: "error ?s1 = STATUS_SUCCESS \<or> \<not> (\<forall>t'. set_value tolowerW al p name type data
                     (?s1\<lparr>current_time := t'\<rparr>) = ?s1\<lparr>current_time := t'\<rparr>)" for al' t'
  proof -
    obtain k1 where k1: "key_at (root_key ?s1) p = Some k1"
      "values_sorted tolowerW (key_values (node k1))"
      "has_value tolowerW (key_values (node k1)) name type (Some data)"
      using stored [OF d e] by blast
    have "key_at (root_key (?s1\<lparr>current_time := t'\<rparr>)) p = Some k1"
      using k1(1) by simp
    then show ?thesis
      by (rule set_value_has_value [OF _ k1(2,3)])
  qed
  have one: "has_value tolowerW (key_values (node k)) name type (Some data) \<longrightarrow> ?s1 = s"
    using set_value_has_value [OF assms] by blast
  have two: "data \<noteq> [] \<longrightarrow> (\<forall>t'. set_value tolowerW al p name type data
      (?s1\<lparr>current_time := t'\<rparr>) = ?s1\<lparr>current_time := t'\<rparr>)"
    using again [of al] by blast
  have three: "data \<noteq> [] \<and> error ?s1 = STATUS_SUCCESS \<longrightarrow>
      (\<exists>k1. key_at (root_key ?s1) p = Some k1 \<and>
             values_sorted tolowerW (key_values (node k1)) \<and>
             has_value tolowerW (key_values (node k1)) name type (Some data)) \<and>
      (\<forall>al' t'. set_value tolowerW al' p name type data (?s1\<lparr>current_time := t'\<rparr>)
                 = ?s1\<lparr>current_time := t'\<rparr>)"
    using stored again by blast
  show ?thesis
    using one two three by blast
qed

theorem set_value_identical_noop_witness:
  "key_at (root_key (values_registry 0)) [] = Some (Key (values_node 0) [])
   \<and> values_sorted ascii_lower (key_values (node (Key (values_node 0) [])))
   \<and> has_value ascii_lower (key_values (node (Key (values_node 0) []))) [0x42] 3 (Some [7])
   \<and> set_value ascii_lower all_memory [] [0x42] 3 [7] (values_registry 0) = values_registry 0
   \<and> [9 :: byte] \<noteq> []
   \<and> set_value ascii_lower all_memory [] [0x43] 1 [9] (values_registry 0)
       = \<lparr>root_key = Key \<lparr>obj_name = [0x41], key_class = None,
              key_values = [\<lparr>vname = [0x61], vtype = 1, vdata = Some [1, 2]\<rparr>,
                            \<lparr>vname = [0x62], vtype = 3, vdata = Some [7]\<rparr>,
                            \<lparr>vname = [0x43], vtype = 1, vdata = Some [9]\<rparr>,
                            \<lparr>vname = [0x64], vtype = 1, vdata = None\<rparr>],
              nb_values = 8, flags = 4, modif = 100,
              notify_list = [\<lparr>event = None, subtree = False, filter = 4,
                              hkey = 1, process = 1\<rparr>]\<rparr> [],
          prefix = PREFIX_64BIT, current_time = 100, error = STATUS_SUCCESS, signalled = [7]\<rparr>
   \<and> error (set_value ascii_lower all_memory [] [0x43] 1 [9] (values_registry 0)) = STATUS_SUCCESS
   \<and> set_value ascii_lower no_memory [] [0x43] 1 [9]
         ((set_value ascii_lower all_memory [] [0x43] 1 [9] (values_registry 0))\<lparr>current_time := 200\<rparr>)
       = (set_value ascii_lower all_memory [] [0x43] 1 [9] (values_registry 0))\<lparr>current_time := 200\<rparr>"
proof -
  have k: "key_at (root_key (values_registry 0)) [] = Some (Key (values_node 0) [])"
    by (simp add: values_registry_def)
  have srt: "values_sorted ascii_lower (key_values (node (Key (values_node 0) [])))"
    by code_simp
  have h: "has_value ascii_lower (key_values (node (Key (values_node 0) []))) [0x42] 3 (Some [7])"
    by code_simp
  have r: "set_value ascii_lower all_memory [] [0x43] 1 [9] (values_registry 0)
       = \<lparr>root_key = Key \<lparr>obj_name = [0x41], key_class = None,
              key_values = [\<lparr>vname = [0x61], vtype = 1, vdata = Some [1, 2]\<rparr>,
                            \<lparr>vname = [0x62], vtype = 3, vdata = Some [7]\<rparr>,
                            \<lparr>vname = [0x43], vtype = 1, vdata = Some [9]\<rparr>,
                            \<lparr>vname = [0x64], vtype = 1, vdata = None\<rparr>],
              nb_values = 8, flags = 4, modif = 100,
              notify_list = [\<lparr>event = None, subtree = False, filter = 4,
                              hkey = 1, process = 1\<rparr>]\<rparr> [],
          prefix = PREFIX_64BIT, current_time = 100, error = STATUS_SUCCESS, signalled = [7]\<rparr>"
    by code_simp
  have e: "error (set_value ascii_lower all_memory [] [0x43] 1 [9] (values_registry 0))
      = STATUS_SUCCESS"
    unfolding r by simp
  note a = set_value_identical_noop [OF k srt, of "[0x42]" 3 "[7]" all_memory]
  note b = set_value_identical_noop [OF k srt, of "[0x43]" 1 "[9]" all_memory]
  have a1: "set_value ascii_lower all_memory [] [0x42] 3 [7] (values_registry 0) = values_registry 0"
    using a h by blast
  have b1: "set_value ascii_lower no_memory [] [0x43] 1 [9]
         ((set_value ascii_lower all_memory [] [0x43] 1 [9] (values_registry 0))\<lparr>current_time := 200\<rparr>)
       = (set_value ascii_lower all_memory [] [0x43] 1 [9] (values_registry 0))\<lparr>current_time := 200\<rparr>"
    using b e by blast
  show ?thesis
    using k srt h a1 r e b1 by simp
qed

text \<open>
  C4 as stated fails for the empty byte string. The key holds the value \<open>a\<close> of type 1
  with no bytes, and the call sets \<open>a\<close> to type 1 with no bytes. The key is touched all
  the same: its modification time becomes the current time 100, it is marked dirty
  (flag 4) and the subscription fires event 7.
\<close>

theorem set_value_identical_counterexample:
  "\<lparr>vname = [0x61], vtype = 1, vdata = None\<rparr> \<in> set (key_values (example_node None 0))
   \<and> find_value ascii_lower (Key (example_node None 0) []) [0x61]
       = (Some \<lparr>vname = [0x61], vtype = 1, vdata = None\<rparr>, 0)
   \<and> vlen \<lparr>vname = [0x61], vtype = 1, vdata = None\<rparr> = length ([] :: byte list)
   \<and> set_value ascii_lower all_memory [] [0x61] 1 [] (example_registry None 0)
       = \<lparr>root_key = Key \<lparr>obj_name = [0x41], key_class = None,
              key_values = [\<lparr>vname = [0x61], vtype = 1, vdata = None\<rparr>], nb_values = 8,
              flags = 4, modif = 100,
              notify_list = [\<lparr>event = None, subtree = False, filter = 4,
                              hkey = 1, process = 1\<rparr>]\<rparr> [],
          prefix = PREFIX_64BIT, current_time = 100, error = STATUS_SUCCESS, signalled = [7]\<rparr>
   \<and> set_value ascii_lower all_memory [] [0x61] 1 [] (example_registry None 0)
       \<noteq> example_registry None 0"
  by code_simp

text \<open>
  C5, as amended. On a key that carries \<open>KEY_SYMLINK\<close>, a \<open>set_value\<close> whose type is not
  \<open>REG_LINK\<close> or whose name is not \<open>SymbolicLinkValue\<close> (compared after lower-casing)
  fails with \<open>STATUS_ACCESS_DENIED\<close> and changes nothing else, unless it repeats a value
  that the key already stores with the same type and the same stored payload: that test
  comes first and returns without an error.
\<close>

theorem set_value_symlink_access_denied:
  assumes "key_at (root_key s) p = Some k"
    and "key_flags k AND KEY_SYMLINK \<noteq> 0"
    and "type \<noteq> REG_LINK \<or> length name \<noteq> length symlink_value \<or>
         map tolowerW name \<noteq> map tolowerW symlink_value"
    and "\<not> (\<exists>v i. find_value tolowerW k name = (Some v, i) \<and> vtype v = type \<and>
              vdata v = Some data)"
  shows "set_value tolowerW mem p name type data s = s\<lparr>error := STATUS_ACCESS_DENIED\<rparr>"
proof -
  obtain val index where f: "find_value tolowerW k name = (val, index)"
    by (cases "find_value tolowerW k name")
  have skip: "\<not> (case val of None \<Rightarrow> False
      | Some v \<Rightarrow> vtype v = type \<and> vlen v = length data \<and>
          (case vdata v of None \<Rightarrow> False | Some d \<Rightarrow> d = data))"
    using assms(4) f by (auto split: option.splits)
  have deny: "type \<noteq> REG_LINK \<or> 2 * length name \<noteq> 2 * length symlink_value \<or>
      memicmpW tolowerW name symlink_value (2 * length name div 2) \<noteq> 0"
  proof (cases "length name = length symlink_value")
    case True
    then show ?thesis
      using assms(3) memicmpW_eq_0_iff [OF True, of tolowerW] by auto
  next
    case False
    then show ?thesis by simp
  qed
  show ?thesis
    using assms(1,2) f skip deny by (simp add: set_value_def)
qed

theorem set_value_symlink_access_denied_witness:
  "key_at (root_key (example_registry (Some [1, 2]) KEY_SYMLINK)) []
       = Some (Key (example_node (Some [1, 2]) KEY_SYMLINK) [])
   \<and> key_flags (Key (example_node (Some [1, 2]) KEY_SYMLINK) []) AND KEY_SYMLINK \<noteq> 0
   \<and> (1 :: 32 word) \<noteq> REG_LINK
   \<and> find_value ascii_lower (Key (example_node (Some [1, 2]) KEY_SYMLINK) []) [0x62] = (None, 1)
   \<and> set_value ascii_lower all_memory [] [0x62] 1 [3] (example_registry (Some [1, 2]) KEY_SYMLINK)
       = (example_registry (Some [1, 2]) KEY_SYMLINK)\<lparr>error := STATUS_ACCESS_DENIED\<rparr>"
proof -
  have k: "key_at (root_key (example_registry (Some [1, 2]) KEY_SYMLINK)) []
      = Some (Key (example_node (Some [1, 2]) KEY_SYMLINK) [])"
    by (simp add: example_registry_def)
  have fl: "key_flags (Key (example_node (Some [1, 2]) KEY_SYMLINK) []) AND KEY_SYMLINK \<noteq> 0"
    by (simp add: key_flags_def example_node_def KEY_SYMLINK_def)
  have ty: "(1 :: 32 word) \<noteq> REG_LINK"
    by (simp add: REG_LINK_def)
  have f: "find_value ascii_lower (Key (example_node (Some [1, 2]) KEY_SYMLINK) []) [0x62]
      = (None, 1)"
    by code_simp
  have d: "(1 :: 32 word) \<noteq> REG_LINK \<or> length [0x62 :: WCHAR] \<noteq> length symlink_value \<or>
      map ascii_lower [0x62] \<noteq> map ascii_lower symlink_value"
    using ty by simp
  have n: "\<not> (\<exists>v i. find_value ascii_lower (Key (example_node (Some [1, 2]) KEY_SYMLINK) []) [0x62]
      = (Some v, i) \<and> vtype v = 1 \<and> vdata v = Some [3])"
    using f by simp
  show ?thesis
    using k fl ty f set_value_symlink_access_denied [OF k fl d n, of all_memory] by simp
qed

text \<open>
  C5 as stated fails where the call repeats a stored value. The key is a symbolic link
  and stores the value \<open>a\<close> of type 1 with the bytes 1, 2; the call sets \<open>a\<close> to type 1
  with the bytes 1, 2. The name is not \<open>SymbolicLinkValue\<close> and the type is not \<open>REG_LINK\<close>,
  yet the error slot still holds \<open>STATUS_SUCCESS\<close>.
\<close>

theorem set_value_symlink_counterexample:
  "key_flags (Key (example_node (Some [1, 2]) KEY_SYMLINK) []) AND KEY_SYMLINK \<noteq> 0
   \<and> (1 :: 32 word) \<noteq> REG_LINK
   \<and> error (set_value ascii_lower all_memory [] [0x61] 1 [1, 2]
         (example_registry (Some [1, 2]) KEY_SYMLINK)) = STATUS_SUCCESS
   \<and> error (set_value ascii_lower all_memory [] [0x61] 1 [1, 2]
         (example_registry (Some [1, 2]) KEY_SYMLINK)) \<noteq> STATUS_ACCESS_DENIED"
  by code_simp

text \<open>
  C9, as amended. The key carries \<open>KEY_SYMLINK\<close>, its values are sorted and it stores a
  value \<open>v\<close> of the given name; the call is not a \<open>REG_LINK\<close> named \<open>SymbolicLinkValue\<close>.
  If \<open>v\<close> has the given type and a stored payload equal to the given bytes, \<open>set_value\<close>
  returns with the registry, the error slot included, exactly as it was: the test for an
  identical value comes before the restriction on symbolic links. In every other case
  (another type, other bytes, or a value of length 0, which has no stored payload) the
  call is refused with \<open>STATUS_ACCESS_DENIED\<close> and changes nothing else.
\<close>

theorem set_value_symlink_identical_noop:
  assumes "key_at (root_key s) p = Some k"
    and "key_flags k AND KEY_SYMLINK \<noteq> 0"
    and "values_sorted tolowerW (key_values (node k))"
    and "v \<in> set (key_values (node k))"
    and "lower_name tolowerW (vname v) = lower_name tolowerW name"
    and "type \<noteq> REG_LINK \<or> length name \<noteq> length symlink_value \<or>
         map tolowerW name \<noteq> map tolowerW symlink_value"
  shows "(vtype v = type \<and> vdata v = Some data \<longrightarrow>
            set_value tolowerW al p name type data s = s \<and>
            error (set_value tolowerW al p name type data s) = error s)
       \<and> (\<not> (vtype v = type \<and> vdata v = Some data) \<longrightarrow>
            set_value tolowerW al p name type data s = s\<lparr>error := STATUS_ACCESS_DENIED\<rparr>)"
proof -
  obtain i where f: "find_value tolowerW k name = (Some v, i)"
    using find_value_stored [OF assms(3,4,5)] by blast
  have deny: "type \<noteq> REG_LINK \<or> 2 * length name \<noteq> 2 * length symlink_value \<or>
      memicmpW tolowerW name symlink_value (2 * length name div 2) \<noteq> 0"
  proof (cases "length name = length symlink_value")
    case True
    then show ?thesis
      using assms(6) memicmpW_eq_0_iff [OF True, of tolowerW] by auto
  next
    case False
    then show ?thesis by simp
  qed
  have one: "set_value tolowerW al p name type data s = s"
    if "vtype v = type" "vdata v = Some data"
    by (rule set_value_skip [OF assms(1) f that])
  have two: "set_value tolowerW al p name type data s = s\<lparr>error := STATUS_ACCESS_DENIED\<rparr>"
    if n: "\<not> (vtype v = type \<and> vdata v = Some data)"
  proof -
    have "\<not> (vtype v = type \<and> vlen v = length data \<and>
        (case vdata v of None \<Rightarrow> False | Some d \<Rightarrow> d = data))"
      using n by (cases "vdata v") auto
    then show ?thesis
      using assms(1,2) f deny by (auto simp add: set_value_def)
  qed
  show ?thesis
    using one two by auto
qed

theorem set_value_symlink_identical_noop_witness:
  "key_at (root_key (values_registry KEY_SYMLINK)) [] = Some (Key (values_node KEY_SYMLINK) [])
   \<and> key_flags (Key (values_node KEY_SYMLINK) []) AND KEY_SYMLINK \<noteq> 0
   \<and> values_sorted ascii_lower (key_values (node (Key (values_node KEY_SYMLINK) [])))
   \<and> \<lparr>vname = [0x62], vtype = 3, vdata = Some [7]\<rparr>
        \<in> set (key_values (node (Key (values_node KEY_SYMLINK) [])))
   \<and> lower_name ascii_lower [0x62] = lower_name ascii_lower [0x42]
   \<and> (3 :: 32 word) \<noteq> REG_LINK
   \<and> set_value ascii_lower all_memory [] [0x42] 3 [7] (values_registry KEY_SYMLINK)
       = values_registry KEY_SYMLINK
   \<and> error (set_value ascii_lower all_memory [] [0x42] 3 [7] (values_registry KEY_SYMLINK))
       = STATUS_SUCCESS
   \<and> set_value ascii_lower all_memory [] [0x42] 3 [8] (values_registry KEY_SYMLINK)
       = (values_registry KEY_SYMLINK)\<lparr>error := STATUS_ACCESS_DENIED\<rparr>"
proof -
  let ?v = "\<lparr>vname = [0x62], vtype = 3, vdata = Some [7 :: byte]\<rparr>"
  have k: "key_at (root_key (values_registry KEY_SYMLINK)) [] = Some (Key (values_node KEY_SYMLINK) [])"
    by (simp add: values_registry_def)
  have fl: "key_flags (Key (values_node KEY_SYMLINK) []) AND KEY_SYMLINK \<noteq> 0"
    by (simp add: key_flags_def values_node_def KEY_SYMLINK_def)
  have srt: "values_sorted ascii_lower (key_values (node (Key (values_node KEY_SYMLINK) [])))"
    by code_simp
  have v: "?v \<in> set (key_values (node (Key (values_node KEY_SYMLINK) [])))"
    by (simp add: values_node_def)
  have n: "lower_name ascii_lower (vname ?v) = lower_name ascii_lower [0x42]"
    by code_simp
  have ty: "(3 :: 32 word) \<noteq> REG_LINK"
    by (simp add: REG_LINK_def)
  have d: "(3 :: 32 word) \<noteq> REG_LINK \<or> length [0x42 :: WCHAR] \<noteq> length symlink_value \<or>
      map ascii_lower [0x42] \<noteq> map ascii_lower symlink_value"
    using ty by simp
  have e: "error (values_registry KEY_SYMLINK) = STATUS_SUCCESS"
    by (simp add: values_registry_def)
  note a = set_value_symlink_identical_noop [OF k fl srt v n d, of "[7]" all_memory]
  note b = set_value_symlink_identical_noop [OF k fl srt v n d, of "[8]" all_memory]
  show ?thesis
    using k fl srt v n ty e a b by simp
qed

text \<open>
  C9 as stated fails for a value without bytes. The key is a symbolic link and stores
  the value \<open>a\<close> of type 1 with no bytes; setting \<open>a\<close> to type 1 with no bytes again is
  refused with \<open>STATUS_ACCESS_DENIED\<close>, since a value of length 0 has no stored data pointer
  and the test for an identical value does not apply.
\<close>

theorem set_value_symlink_identical_counterexample:
  "key_flags (Key (example_node None KEY_SYMLINK) []) AND KEY_SYMLINK \<noteq> 0
   \<and> \<lparr>vname = [0x61], vtype = 1, vdata = None\<rparr>
        \<in> set (key_values (example_node None KEY_SYMLINK))
   \<and> find_value ascii_lower (Key (example_node None KEY_SYMLINK) []) [0x61]
       = (Some \<lparr>vname = [0x61], vtype = 1, vdata = None\<rparr>, 0)
   \<and> vlen \<lparr>vname = [0x61], vtype = 1, vdata = None\<rparr> = length ([] :: byte list)
   \<and> error (example_registry None KEY_SYMLINK) = STATUS_SUCCESS
   \<and> error (set_value ascii_lower all_memory [] [0x61] 1 [] (example_registry None KEY_SYMLINK))
       = STATUS_ACCESS_DENIED"
  by code_simp

section \<open>Claims about the request handlers\<close>

text \<open>
  C7, as amended. The limit of \<open>open_key\<close> is on \<open>name.len\<close>, which counts bytes: a name
  of 65534 bytes or more, that is of more than 32766 wide characters, is refused with
  \<open>STATUS_OBJECT_NAME_INVALID\<close>, whatever the handle table and the object manager would
  answer, so before any handle or key is looked up. For a shorter name the handler does
  not raise that error itself: when the error slot does not hold it before and neither
  the handle table nor the object manager sets it, it is not set after the request.
\<close>

theorem open_key_name_invalid:
  "(2 * length (ok_name req) \<ge> 65534 \<longrightarrow>
      open_key_handler srv tolowerW cpu64 req s
        = Some (0, s\<lparr>error := STATUS_OBJECT_NAME_INVALID\<rparr>))
   \<and> (2 * length (ok_name req) < 65534 \<and> error s \<noteq> STATUS_OBJECT_NAME_INVALID \<and>
        (\<forall>h a. get_handle_obj srv h a \<noteq> Inl STATUS_OBJECT_NAME_INVALID) \<and>
        (\<forall>k a b. alloc_handle srv k a b \<noteq> Inl STATUS_OBJECT_NAME_INVALID) \<and>
        (\<forall>par n a s0 r s1. open_named_object srv par n a s0 = (r, s1) \<longrightarrow>
            error s1 \<noteq> STATUS_OBJECT_NAME_INVALID) \<and>
        open_key_handler srv tolowerW cpu64 req s = Some (h, s')
      \<longrightarrow> error s' \<noteq> STATUS_OBJECT_NAME_INVALID)"
proof (intro conjI impI)
  assume "2 * length (ok_name req) \<ge> 65534"
  then show "open_key_handler srv tolowerW cpu64 req s
      = Some (0, s\<lparr>error := STATUS_OBJECT_NAME_INVALID\<rparr>)"
    by (simp add: open_key_handler_def)
next
  assume "2 * length (ok_name req) < 65534 \<and> error s \<noteq> STATUS_OBJECT_NAME_INVALID \<and>
        (\<forall>h a. get_handle_obj srv h a \<noteq> Inl STATUS_OBJECT_NAME_INVALID) \<and>
        (\<forall>k a b. alloc_handle srv k a b \<noteq> Inl STATUS_OBJECT_NAME_INVALID) \<and>
        (\<forall>par n a s0 r s1. open_named_object srv par n a s0 = (r, s1) \<longrightarrow>
            error s1 \<noteq> STATUS_OBJECT_NAME_INVALID) \<and>
        open_key_handler srv tolowerW cpu64 req s = Some (h, s')"
  then show "error s' \<noteq> STATUS_OBJECT_NAME_INVALID"
    by (fastforce simp add: open_key_handler_def get_hkey_obj_def Let_def
        split: if_splits prod.splits option.splits sum.splits)
qed

theorem open_key_name_invalid_witness:
  "2 * length (ok_name \<lparr>ok_parent = 1, ok_access = 0, ok_attributes = 0,
                        ok_name = replicate 32767 0x41\<rparr>) \<ge> 65534
   \<and> open_key_handler example_server ascii_lower True
         \<lparr>ok_parent = 1, ok_access = 0, ok_attributes = 0, ok_name = replicate 32767 0x41\<rparr>
         (example_registry None 0)
       = Some (0, (example_registry None 0)\<lparr>error := STATUS_OBJECT_NAME_INVALID\<rparr>)
   \<and> 2 * length (ok_name \<lparr>ok_parent = 1, ok_access = 0, ok_attributes = 0,
                          ok_name = [0x41]\<rparr>) < 65534
   \<and> open_key_handler example_server ascii_lower True
         \<lparr>ok_parent = 1, ok_access = 0, ok_attributes = 0, ok_name = [0x41]\<rparr>
         (example_registry None 0)
       = Some (0, (example_registry None 0)\<lparr>error := STATUS_OBJECT_NAME_NOT_FOUND\<rparr>)
   \<and> error ((example_registry None 0)\<lparr>error := STATUS_OBJECT_NAME_NOT_FOUND\<rparr>)
       \<noteq> STATUS_OBJECT_NAME_INVALID"
proof -
  let ?long = "\<lparr>ok_parent = 1, ok_access = 0, ok_attributes = 0,
                 ok_name = replicate 32767 (0x41 :: WCHAR)\<rparr>"
  let ?short = "\<lparr>ok_parent = 1, ok_access = 0, ok_attributes = 0, ok_name = [0x41 :: WCHAR]\<rparr>"
  have l: "2 * length (ok_name ?long) \<ge> 65534"
    by simp
  have sh: "2 * length (ok_name ?short) < 65534"
    by simp
  have e0: "error (example_registry None 0) \<noteq> STATUS_OBJECT_NAME_INVALID"
    by (simp add: example_registry_def)
  have g: "\<forall>h a. get_handle_obj example_server h a \<noteq> Inl STATUS_OBJECT_NAME_INVALID"
    by (simp add: example_server_def)
  have al: "\<forall>k a b. alloc_handle example_server k a b \<noteq> Inl STATUS_OBJECT_NAME_INVALID"
    by (simp add: example_server_def)
  have on: "\<forall>par n a s0 r s1. open_named_object example_server par n a s0 = (r, s1) \<longrightarrow>
      error s1 \<noteq> STATUS_OBJECT_NAME_INVALID"
    by (auto simp add: example_server_def)
  have run: "open_key_handler example_server ascii_lower True ?short (example_registry None 0)
      = Some (0, (example_registry None 0)\<lparr>error := STATUS_OBJECT_NAME_NOT_FOUND\<rparr>)"
    by (simp add: open_key_handler_def get_hkey_obj_def example_server_def
        example_registry_def example_node_def key_flags_def KEY_DELETED_def
        is_wow64_thread_def KEY_WOW64_32KEY_def)
  have first: "open_key_handler example_server ascii_lower True ?long (example_registry None 0)
      = Some (0, (example_registry None 0)\<lparr>error := STATUS_OBJECT_NAME_INVALID\<rparr>)"
    using open_key_name_invalid [of ?long example_server ascii_lower True
        "example_registry None 0"] l
    by blast
  have second: "error ((example_registry None 0)\<lparr>error := STATUS_OBJECT_NAME_NOT_FOUND\<rparr>)
      \<noteq> STATUS_OBJECT_NAME_INVALID"
    using open_key_name_invalid [of ?short example_server ascii_lower True
        "example_registry None 0" 0
        "(example_registry None 0)\<lparr>error := STATUS_OBJECT_NAME_NOT_FOUND\<rparr>"]
      sh e0 g al on run
    by blast
  show ?thesis
    using l sh first run second by blast
qed

text \<open>
  C7 as stated fails: a path of 32767 wide characters is not longer than 65533 wide
  characters, and \<open>open_key\<close> refuses it with \<open>STATUS_OBJECT_NAME_INVALID\<close>.
\<close>

theorem open_key_name_counterexample:
  "\<not> length (replicate 32767 (0x41 :: WCHAR)) > 65533
   \<and> open_key_handler example_server ascii_lower True
         \<lparr>ok_parent = 0, ok_access = 0, ok_attributes = 0, ok_name = replicate 32767 0x41\<rparr>
         (example_registry None 0)
       = Some (0, (example_registry None 0)\<lparr>error := STATUS_OBJECT_NAME_INVALID\<rparr>)"
  by (simp add: open_key_handler_def)



section \<open>Claims about saving\<close>

text \<open>
  C1, as amended. A dirty branch is written in place, after truncation, when the
  destination can be opened for writing and \<open>lstat\<close> reports a file that is not regular
  (a symbolic link among them) or has more than one link. In every other case (a regular
  file with a single link among them) the branch is written to a fresh
  \<open>reg<pid><counter>.tmp\<close> in the directory of the destination, the first name from
  counter 0 on that does not exist; after a successful \<open>fclose\<close> the file is renamed over
  the destination, and it is unlinked when \<open>fdopen\<close>, \<open>fclose\<close> or \<open>rename\<close> fails. The
  branch is marked clean exactly when the save returns 1.
\<close>

theorem save_branch_write_path:
  assumes "key_flags key AND KEY_DIRTY \<noteq> 0"
  shows "(open_dest env \<and> lstat_dest env = Some st \<and> (\<not> st_isreg st \<or> st_nlink st > 1) \<longrightarrow>
            save_branch env key path = Some
              (if fdopen_ok env \<and> fclose_ok env then 1 else 0,
               if fdopen_ok env \<and> fclose_ok env then make_clean key else key,
               [Open path, Lstat path, Ftruncate] @
               (if fdopen_ok env then [Fdopen, Write_branch, Fclose] else [Fdopen, Close])))
       \<and> (\<not> (open_dest env \<and>
               (\<exists>st. lstat_dest env = Some st \<and> (\<not> st_isreg st \<or> st_nlink st > 1))) \<and>
          malloc_ok env \<and> (\<forall>i<n. open_tmp env i = EEXIST) \<and> open_tmp env n = Opened \<longrightarrow>
            save_branch env key path = Some
              (if fdopen_ok env \<and> fclose_ok env \<and> rename_ok env then 1 else 0,
               if fdopen_ok env \<and> fclose_ok env \<and> rename_ok env then make_clean key else key,
               (if open_dest env then [Open path, Lstat path, Close] else [Open path]) @
               tmp_attempts path (getpid env) n @
               (if fdopen_ok env
                then [Fdopen, Write_branch, Fclose] @
                     (if fclose_ok env then [Rename (tmp_name path (getpid env) n) path] else []) @
                     (if fclose_ok env \<and> rename_ok env then []
                      else [Unlink (tmp_name path (getpid env) n)])
                else [Fdopen, Unlink (tmp_name path (getpid env) n), Close])))
       \<and> last (tmp_attempts path (getpid env) n) = Open_excl (tmp_name path (getpid env) n)
       \<and> dir_prefix (tmp_name path (getpid env) n) = dir_prefix path"
proof (intro conjI impI)
  assume "open_dest env \<and> lstat_dest env = Some st \<and> (\<not> st_isreg st \<or> st_nlink st > 1)"
  then show "save_branch env key path = Some
              (if fdopen_ok env \<and> fclose_ok env then 1 else 0,
               if fdopen_ok env \<and> fclose_ok env then make_clean key else key,
               [Open path, Lstat path, Ftruncate] @
               (if fdopen_ok env then [Fdopen, Write_branch, Fclose] else [Fdopen, Close]))"
    using assms by (auto simp add: save_branch_def save_to_def Let_def)
next
  assume a: "\<not> (open_dest env \<and>
               (\<exists>st. lstat_dest env = Some st \<and> (\<not> st_isreg st \<or> st_nlink st > 1))) \<and>
          malloc_ok env \<and> (\<forall>i<n. open_tmp env i = EEXIST) \<and> open_tmp env n = Opened"
  then have c: "create_tmp env 0 = Some (True, n)"
    by (intro create_tmp_finds) auto
  have b: "\<not> (open_dest env \<and>
      (case lstat_dest env of None \<Rightarrow> False | Some st \<Rightarrow> \<not> st_isreg st \<or> st_nlink st > 1))"
    using a by (auto split: option.splits)
  show "save_branch env key path = Some
              (if fdopen_ok env \<and> fclose_ok env \<and> rename_ok env then 1 else 0,
               if fdopen_ok env \<and> fclose_ok env \<and> rename_ok env then make_clean key else key,
               (if open_dest env then [Open path, Lstat path, Close] else [Open path]) @
               tmp_attempts path (getpid env) n @
               (if fdopen_ok env
                then [Fdopen, Write_branch, Fclose] @
                     (if fclose_ok env then [Rename (tmp_name path (getpid env) n) path] else []) @
                     (if fclose_ok env \<and> rename_ok env then []
                      else [Unlink (tmp_name path (getpid env) n)])
                else [Fdopen, Unlink (tmp_name path (getpid env) n), Close]))"
    using assms a b c by (simp add: save_branch_def save_to_def Let_def)
next
  show "last (tmp_attempts path (getpid env) n) = Open_excl (tmp_name path (getpid env) n)"
    by (simp add: tmp_attempts_def)
next
  show "dir_prefix (tmp_name path (getpid env) n) = dir_prefix path"
    by (rule tmp_name_same_dir)
qed

theorem save_branch_write_path_witness:
  "key_flags dirty_key AND KEY_DIRTY \<noteq> 0
   \<and> save_branch (example_fs (Some \<lparr>st_isreg = True, st_nlink = 2\<rparr>)) dirty_key ''/cfg/system.reg''
       = Some (1, clean_key,
           [Open ''/cfg/system.reg'', Lstat ''/cfg/system.reg'', Ftruncate,
            Fdopen, Write_branch, Fclose])
   \<and> save_branch (example_fs None) dirty_key ''/cfg/system.reg''
       = Some (1, clean_key,
           [Open ''/cfg/system.reg'', Lstat ''/cfg/system.reg'', Close,
            Open_excl ''/cfg/reg1a2b0000.tmp'', Close, Open_excl ''/cfg/reg1a2b0001.tmp'',
            Fdopen, Write_branch, Fclose,
            Rename ''/cfg/reg1a2b0001.tmp'' ''/cfg/system.reg''])"
proof -
  have d: "key_flags dirty_key AND KEY_DIRTY \<noteq> 0"
    by (simp add: dirty_key_def simple_node_def key_flags_def KEY_DIRTY_def)
  note mc = make_clean_dirty_key and tn = tmp_attempts_example and t1 = tmp_name_example
  have a: "save_branch (example_fs (Some \<lparr>st_isreg = True, st_nlink = 2\<rparr>)) dirty_key
      ''/cfg/system.reg''
       = Some (1, clean_key,
           [Open ''/cfg/system.reg'', Lstat ''/cfg/system.reg'', Ftruncate,
            Fdopen, Write_branch, Fclose])"
    using save_branch_write_path [OF d, of "example_fs (Some \<lparr>st_isreg = True, st_nlink = 2\<rparr>)"
        "\<lparr>st_isreg = True, st_nlink = 2\<rparr>" "''/cfg/system.reg''" 1] mc
    by (simp add: example_fs_def)
  have b: "save_branch (example_fs None) dirty_key ''/cfg/system.reg''
       = Some (1, clean_key,
           [Open ''/cfg/system.reg'', Lstat ''/cfg/system.reg'', Close,
            Open_excl ''/cfg/reg1a2b0000.tmp'', Close, Open_excl ''/cfg/reg1a2b0001.tmp'',
            Fdopen, Write_branch, Fclose,
            Rename ''/cfg/reg1a2b0001.tmp'' ''/cfg/system.reg''])"
    using save_branch_write_path [OF d, of "example_fs None"
        "\<lparr>st_isreg = True, st_nlink = 2\<rparr>" "''/cfg/system.reg''" 1] mc tn t1
    by (simp add: example_fs_def)
  show ?thesis
    using d a b by blast
qed

text \<open>
  C1 as stated fails: for a destination that is a regular file with one link and no
  symbolic link the source does not truncate and write in place; it writes the temporary
  file and renames it over the destination.
\<close>

theorem save_branch_counterexample:
  "key_flags dirty_key AND KEY_DIRTY \<noteq> 0
   \<and> save_branch (example_fs (Some \<lparr>st_isreg = True, st_nlink = 1\<rparr>)) dirty_key ''/cfg/system.reg''
       = Some (1, clean_key,
           [Open ''/cfg/system.reg'', Lstat ''/cfg/system.reg'', Close,
            Open_excl ''/cfg/reg1a2b0000.tmp'', Close, Open_excl ''/cfg/reg1a2b0001.tmp'',
            Fdopen, Write_branch, Fclose,
            Rename ''/cfg/reg1a2b0001.tmp'' ''/cfg/system.reg''])
   \<and> Ftruncate \<notin> set [Open ''/cfg/system.reg'', Lstat ''/cfg/system.reg'', Close,
            Open_excl ''/cfg/reg1a2b0000.tmp'', Close, Open_excl ''/cfg/reg1a2b0001.tmp'',
            Fdopen, Write_branch, Fclose,
            Rename ''/cfg/reg1a2b0001.tmp'' ''/cfg/system.reg'']"
proof -
  let ?env = "example_fs (Some \<lparr>st_isreg = True, st_nlink = 1\<rparr>)"
  have d: "key_flags dirty_key AND KEY_DIRTY \<noteq> 0"
    by (simp add: dirty_key_def simple_node_def key_flags_def KEY_DIRTY_def)
  have c: "create_tmp ?env 0 = Some (True, 1)"
    by (rule create_tmp_finds) (simp_all add: example_fs_def)
  have s: "save_branch ?env dirty_key ''/cfg/system.reg''
      = Some (1, make_clean dirty_key,
          [Open ''/cfg/system.reg'', Lstat ''/cfg/system.reg'', Close] @
          tmp_attempts ''/cfg/system.reg'' 0x1a2b 1 @
          [Fdopen, Write_branch, Fclose,
           Rename (tmp_name ''/cfg/system.reg'' 0x1a2b 1) ''/cfg/system.reg''])"
    using d c by (simp add: save_branch_def save_to_def example_fs_def)
  show ?thesis
    using d s by (simp add: tmp_name_example tmp_attempts_example make_clean_dirty_key)
qed

section \<open>Claims about notifications and dirty marking\<close>

text \<open>
  C6. A change of kind \<open>c\<close> at the key \<open>M\<close> (\<open>touch_key\<close>) runs \<open>do_notification\<close> on
  every subscription of \<open>M\<close> whose filter has a bit in common with \<open>c\<close>, whatever its
  subtree flag, and on each parent of \<open>M\<close> up to the root on the subscriptions that have
  the subtree flag and whose filter has a bit in common with \<open>c\<close> without
  \<open>REG_NOTIFY_CHANGE_LAST_SET\<close>; no other subscription of the tree changes. Such a
  subscription loses its event, and the events set are those of the subscriptions of \<open>M\<close>
  first, then of the parents, nearest first. So a value change (\<open>c\<close> is
  \<open>REG_NOTIFY_CHANGE_LAST_SET\<close>) leaves the subscriptions of all parents alone and sets
  events of \<open>M\<close> only. The parents of \<open>M\<close> are the proper prefixes of its path.
\<close>

theorem touch_key_notifies:
  assumes "key_at (root_key s) p = Some m"
  shows "notify_at (root_key (touch_key p c s)) p
           = map (\<lambda>n. if c AND filter n \<noteq> 0 then n\<lparr>event := None\<rparr> else n)
               (notify_at (root_key s) p)
       \<and> (\<forall>q \<in> set (ancestors p).
            notify_at (root_key (touch_key p c s)) q
              = map (\<lambda>n. if subtree n \<and> (c AND NOT REG_NOTIFY_CHANGE_LAST_SET) AND filter n \<noteq> 0
                          then n\<lparr>event := None\<rparr> else n)
                  (notify_at (root_key s) q))
       \<and> (\<forall>q. q \<noteq> p \<and> q \<notin> set (ancestors p) \<longrightarrow>
            notify_at (root_key (touch_key p c s)) q = notify_at (root_key s) q)
       \<and> signalled (touch_key p c s)
           = signalled s @
             List.map_filter (\<lambda>n. if c AND filter n \<noteq> 0 then event n else None)
               (notify_at (root_key s) p) @
             concat (map (\<lambda>q. List.map_filter
                 (\<lambda>n. if subtree n \<and> (c AND NOT REG_NOTIFY_CHANGE_LAST_SET) AND filter n \<noteq> 0
                      then event n else None)
                 (notify_at (root_key s) q)) (ancestors p))
       \<and> (c = REG_NOTIFY_CHANGE_LAST_SET \<longrightarrow>
            (\<forall>q \<in> set (ancestors p).
               notify_at (root_key (touch_key p c s)) q = notify_at (root_key s) q) \<and>
            signalled (touch_key p c s)
              = signalled s @
                List.map_filter (\<lambda>n. if c AND filter n \<noteq> 0 then event n else None)
                  (notify_at (root_key s) p))
       \<and> set (ancestors p) = {q. \<exists>r. r \<noteq> [] \<and> p = q @ r}"
proof -
  let ?c' = "c AND NOT REG_NOTIFY_CHANGE_LAST_SET"
  define s2 where "s2 = s\<lparr>root_key := make_dirty p
      (update_key (update_node (\<lambda>n. n\<lparr>modif := current_time s\<rparr>)) p (root_key s))\<rparr>"
  define s3 where "s3 = check_notify p c True s2"
  have t: "touch_key p c s = notify_parents (parent p) c s3"
    by (simp add: touch_key_def Let_def s2_def s3_def)
  have n2: "notify_at (root_key s2) q = notify_at (root_key s) q" for q
    unfolding s2_def using touch_key_prepare(1) [OF assms, of q] by (rule notify_at_same)
  have e2: "(key_at (root_key s2) q = None) = (key_at (root_key s) q = None)" for q
    using touch_key_prepare(1) [OF assms, of q] unfolding s2_def node_at_def
    by (cases "key_at (root_key s) q") auto
  have sg2: "signalled s2 = signalled s"
    by (simp add: s2_def)
  obtain m2 where m2: "key_at (root_key s2) p = Some m2"
    using e2 [of p] assms by auto
  have nm2: "notify_list (node m2) = notify_at (root_key s) p"
    using n2 [of p] m2 by (simp add: notify_at_def node_at_def)
  have n3: "notify_at (root_key s3) q =
      (if q = p then notified c True (notify_at (root_key s) p) else notify_at (root_key s) q)" for q
    using check_notify_node_at(1) [OF m2, of c True q] nm2 n2 [of q]
    by (auto simp add: s3_def notify_at_def notified_def check_notify_list_eq)
  have e3: "(key_at (root_key s3) q = None) = (key_at (root_key s) q = None)" for q
    using check_notify_node_at(1) [OF m2, of c True q] e2 [of q] m2
    by (auto simp add: s3_def node_at_def split: if_splits)
  have sg3: "signalled s3 = signalled s @ fired c True (notify_at (root_key s) p)"
    using check_notify_node_at(2) [OF m2, of c True] nm2 sg2
    by (simp add: s3_def fired_def check_notify_list_eq)
  have pn: "p \<notin> set (ancestors p)"
    using ancestors_shorter [of p p] by auto
  have main: "(\<forall>q. notify_at (root_key (touch_key p c s)) q =
        (if q = p then notified c True (notify_at (root_key s) p)
         else if q \<in> set (ancestors p) then notified ?c' False (notify_at (root_key s) q)
         else notify_at (root_key s) q))
      \<and> signalled (touch_key p c s) = signalled s @ fired c True (notify_at (root_key s) p) @
          concat (map (\<lambda>q. fired ?c' False (notify_at (root_key s) q)) (ancestors p))"
  proof (cases "p = []")
    case True
    show ?thesis
      unfolding t using n3 sg3 True by (simp add: parent_def)
  next
    case False
    have anc: "ancestors p = butlast p # ancestors (butlast p)"
      using False by (rule ancestors_nonempty)
    have ex: "\<forall>r \<in> set (butlast p # ancestors (butlast p)). key_at (root_key s3) r \<noteq> None"
      using ancestors_key_at [OF assms] e3 anc by auto
    have same: "q \<in> set (ancestors p) \<Longrightarrow> notify_at (root_key s3) q = notify_at (root_key s) q" for q
      using n3 [of q] pn by auto
    have cc: "concat (map (\<lambda>q. fired ?c' False (notify_at (root_key s3) q)) (ancestors p))
        = concat (map (\<lambda>q. fired ?c' False (notify_at (root_key s) q)) (ancestors p))"
      using same by (intro arg_cong [where f = concat] map_cong) auto
    show ?thesis
      unfolding t using notify_parents_eq [OF ex, of c] n3 sg3 pn same cc False
      by (auto simp add: parent_def anc [symmetric])
  qed
  have z: "REG_NOTIFY_CHANGE_LAST_SET AND NOT REG_NOTIFY_CHANGE_LAST_SET = 0"
    by simp
  show ?thesis
    using main pn ancestors_set [of p]
    by (auto simp add: notified_def fired_def z List.map_filter_simps map_filter_def)
qed


theorem touch_key_notifies_witness:
  "key_at (root_key (tree_registry notify_tree)) [0, 0]
       = Some (Key (simple_node [0x58] 0
                  [subscription 4 False REG_NOTIFY_CHANGE_NAME,
                   subscription 5 False REG_NOTIFY_CHANGE_LAST_SET]) [])
   \<and> signalled (touch_key [0, 0] REG_NOTIFY_CHANGE_NAME (tree_registry notify_tree)) = [4, 2, 1]
   \<and> signalled (touch_key [0, 0] REG_NOTIFY_CHANGE_LAST_SET (tree_registry notify_tree)) = [5]"
proof -
  let ?s = "tree_registry notify_tree"
  let ?m = "Key (simple_node [0x58] 0
                  [subscription 4 False REG_NOTIFY_CHANGE_NAME,
                   subscription 5 False REG_NOTIFY_CHANGE_LAST_SET]) []"
  have k: "key_at (root_key ?s) [0, 0] = Some ?m"
    by (simp add: tree_registry_def notify_tree_def)
  have a: "ancestors [0, 0 :: nat] = [[0], []]"
    by (simp add: ancestors_nonempty)
  have n0: "notify_at (root_key ?s) [0, 0]
      = [subscription 4 False REG_NOTIFY_CHANGE_NAME,
         subscription 5 False REG_NOTIFY_CHANGE_LAST_SET]"
    by (simp add: notify_at_def node_at_def tree_registry_def notify_tree_def simple_node_def)
  have n1: "notify_at (root_key ?s) [0]
      = [subscription 2 True REG_NOTIFY_CHANGE_NAME, subscription 3 False REG_NOTIFY_CHANGE_NAME]"
    by (simp add: notify_at_def node_at_def tree_registry_def notify_tree_def simple_node_def)
  have n2: "notify_at (root_key ?s) []
      = [subscription 1 True (REG_NOTIFY_CHANGE_NAME OR REG_NOTIFY_CHANGE_LAST_SET)]"
    by (simp add: notify_at_def node_at_def tree_registry_def notify_tree_def simple_node_def)
  have s0: "signalled ?s = []"
    by (simp add: tree_registry_def)
  have name: "signalled (touch_key [0, 0] REG_NOTIFY_CHANGE_NAME ?s) = [4, 2, 1]"
    using touch_key_notifies [OF k, of REG_NOTIFY_CHANGE_NAME]
    by (simp add: a n0 n1 n2 s0 subscription_def List.map_filter_simps
        REG_NOTIFY_CHANGE_NAME_def REG_NOTIFY_CHANGE_LAST_SET_def)
  have last_set: "signalled (touch_key [0, 0] REG_NOTIFY_CHANGE_LAST_SET ?s) = [5]"
    using touch_key_notifies [OF k, of REG_NOTIFY_CHANGE_LAST_SET]
    by (simp add: a n0 n1 n2 s0 subscription_def List.map_filter_simps
        REG_NOTIFY_CHANGE_NAME_def REG_NOTIFY_CHANGE_LAST_SET_def)
  show ?thesis
    using k name last_set by blast
qed

end
